theory Spec2Isabelle
  imports Complex_Main "HOL-Library.Word" "HOL-Library.AList"
begin

section \<open>Data model\<close>

text \<open>
  The script \<^verbatim>\<open>optimize_images.py\<close> re-encodes JPEG and PNG files as WebP. Its
  collaborators (the Pillow codec, the operating system, \<^verbatim>\<open>pathlib\<close>) are not part
  of the repository; the codec is a record of functions taken as a parameter, the
  operating system is a file tree together with a record saying which system calls
  fail, and the few \<^verbatim>\<open>pathlib\<close> functions used are written out from CPython. The
  repository pins no interpreter; where \<^verbatim>\<open>pathlib\<close> changed between CPython 3.11 and
  CPython 3.12 (in \<^verbatim>\<open>Path.rglob\<close>) both are modelled.

  Python's \<^verbatim>\<open>float\<close> values are modelled as rationals: the rounding of IEEE
  arithmetic is not part of the model.
\<close>

type_synonym bytes = "8 word list"

text \<open>A pixel of an image in mode RGB: three bands of eight bits.\<close>

type_synonym pixel = "8 word \<times> 8 word \<times> 8 word"

text \<open>The exceptions that the modelled calls raise.\<close>

datatype exn =
    FileNotFoundError
  | IsADirectoryError
  | PermissionError
  | OSError
  | ValueError
  | ZeroDivisionError
  | DecodeError
  | EncodeError

text \<open>
  The exceptions that an \<^verbatim>\<open>except OSError\<close> clause catches: \<^verbatim>\<open>OSError\<close> and its
  subclasses \<^verbatim>\<open>FileNotFoundError\<close>, \<^verbatim>\<open>IsADirectoryError\<close> and \<^verbatim>\<open>PermissionError\<close>.
  The two codec failures stand for whatever Pillow raised; no system call raises them.
\<close>

fun is_OSError :: "exn \<Rightarrow> bool" where
  "is_OSError FileNotFoundError = True"
| "is_OSError IsADirectoryError = True"
| "is_OSError PermissionError = True"
| "is_OSError OSError = True"
| "is_OSError ValueError = False"
| "is_OSError ZeroDivisionError = False"
| "is_OSError DecodeError = False"
| "is_OSError EncodeError = False"

text \<open>
  The part of Pillow the script calls, over an image type \<open>'img\<close>. \<open>None\<close> and
  \<open>False\<close> stand for a raised exception.
  \<^item> \<open>pil_open\<close>: \<^verbatim>\<open>Image.open\<close> on the bytes of a file;
  \<^item> \<open>pil_mode\<close>, \<open>pil_size\<close>: the attributes \<^verbatim>\<open>img.mode\<close> and \<^verbatim>\<open>img.size\<close>;
  \<^item> \<open>pil_getchannel_A\<close>: whether \<^verbatim>\<open>img.getchannel('A')\<close> returns;
  \<^item> \<open>pil_convert_RGB\<close>: \<^verbatim>\<open>img.convert('RGB')\<close>;
  \<^item> \<open>pil_resize\<close>: \<^verbatim>\<open>img.resize(size)\<close>;
  \<^item> \<open>pil_getdata\<close>: \<^verbatim>\<open>img.getdata()\<close> of an image in mode RGB;
  \<^item> \<open>pil_save_webp img lossless quality\<close>: the bytes written by
    \<^verbatim>\<open>img.save(buffer, 'WEBP', lossless=..., quality=...)\<close>.
\<close>

record 'img pil =
  pil_open :: "bytes \<Rightarrow> 'img option"
  pil_mode :: "'img \<Rightarrow> string"
  pil_size :: "'img \<Rightarrow> nat \<times> nat"
  pil_getchannel_A :: "'img \<Rightarrow> bool"
  pil_convert_RGB :: "'img \<Rightarrow> 'img option"
  pil_resize :: "'img \<Rightarrow> nat \<times> nat \<Rightarrow> 'img option"
  pil_getdata :: "'img \<Rightarrow> pixel list"
  pil_save_webp :: "'img \<Rightarrow> bool \<Rightarrow> nat \<Rightarrow> bytes option"

section \<open>Similarity estimator: \<^verbatim>\<open>analyze_image_quality\<close>\<close>

text \<open>\<^verbatim>\<open>sum((a - b) ** 2 for a, b in zip(p1, p2))\<close> on two RGB pixels.\<close>

fun pixel_diff :: "pixel \<Rightarrow> pixel \<Rightarrow> int" where
  "pixel_diff (r1, g1, b1) (r2, g2, b2) =
     (uint r1 - uint r2)\<^sup>2 + (uint g1 - uint g2)\<^sup>2 + (uint b1 - uint b2)\<^sup>2"

text \<open>The loop \<^verbatim>\<open>for p1, p2 in zip(pixels1, pixels2): diff += ...\<close>.\<close>

fun diff_loop :: "(pixel \<times> pixel) list \<Rightarrow> int \<Rightarrow> int" where
  "diff_loop [] diff = diff"
| "diff_loop ((p1, p2) # ps) diff = diff_loop ps (diff + pixel_diff p1 p2)"

text \<open>
  The body of the \<^verbatim>\<open>try\<close> block. The division \<^verbatim>\<open>diff / max_diff\<close> raises
  \<^verbatim>\<open>ZeroDivisionError\<close> when \<^verbatim>\<open>max_diff\<close> is \<^verbatim>\<open>0.0\<close>.
\<close>

definition analyze_image_quality_body :: "'img pil \<Rightarrow> bytes \<Rightarrow> bytes \<Rightarrow> exn + rat" where
  "analyze_image_quality_body P original_data webp_data =
     (case pil_open P original_data of
        None \<Rightarrow> Inl DecodeError
      | Some img1 \<Rightarrow>
     (case pil_open P webp_data of
        None \<Rightarrow> Inl DecodeError
      | Some img2 \<Rightarrow>
     (case pil_convert_RGB P img1 of
        None \<Rightarrow> Inl DecodeError
      | Some img1' \<Rightarrow>
     (case pil_convert_RGB P img2 of
        None \<Rightarrow> Inl DecodeError
      | Some img2' \<Rightarrow>
     (case (if pil_size P img1' \<noteq> pil_size P img2'
            then pil_resize P img2' (pil_size P img1') else Some img2') of
        None \<Rightarrow> Inl ValueError
      | Some img2'' \<Rightarrow>
          (let pixels1 = pil_getdata P img1';
               pixels2 = pil_getdata P img2'';
               diff = diff_loop (zip pixels1 pixels2) 0;
               max_diff = (of_nat (length pixels1 * 3 * 255\<^sup>2) :: rat)
           in if max_diff = 0 then Inl ZeroDivisionError
              else Inr (1 - of_int diff / max_diff)))))))"

text \<open>\<^verbatim>\<open>except Exception: return 0.0\<close>.\<close>

definition analyze_image_quality :: "'img pil \<Rightarrow> bytes \<Rightarrow> bytes \<Rightarrow> rat" where
  "analyze_image_quality P original_data webp_data =
     (case analyze_image_quality_body P original_data webp_data of
        Inl e \<Rightarrow> 0
      | Inr similarity \<Rightarrow> similarity)"

text \<open>
  The score as the specification words it: one minus the sum of the squared per-channel
  differences over the pixels, divided by pixel count times channel count times
  \<open>255\<^sup>2\<close>.
\<close>

definition spec_similarity :: "pixel list \<Rightarrow> pixel list \<Rightarrow> rat" where
  "spec_similarity original candidate =
     1 - of_int (\<Sum>(p, q) \<leftarrow> zip original candidate. pixel_diff p q)
         / (of_nat (length original) * 3 * 255\<^sup>2)"

section \<open>Paths: the \<^verbatim>\<open>pathlib\<close> functions the script calls\<close>

text \<open>
  A path is the list of its components below the directory the run starts in; the
  empty list is that directory itself.
\<close>

type_synonym path = "string list"

text \<open>\<^verbatim>\<open>PurePath.name\<close>: the final component, empty for the start directory.\<close>

definition name_of :: "path \<Rightarrow> string" where
  "name_of p = (if p = [] then [] else last p)"

text \<open>\<^verbatim>\<open>str.rfind\<close> of one character: the last index where it occurs, or \<open>-1\<close>.\<close>

fun rfind :: "char \<Rightarrow> string \<Rightarrow> int" where
  "rfind c [] = - 1"
| "rfind c (x # xs) =
     (let i = rfind c xs in if 0 \<le> i then i + 1 else if x = c then 0 else - 1)"

text \<open>\<^verbatim>\<open>PurePath.suffix\<close>, on the final component.\<close>

definition suffix_of :: "string \<Rightarrow> string" where
  "suffix_of name =
     (let i = rfind (CHR ''.'') name
      in if 0 < i \<and> i < int (length name) - 1 then drop (nat i) name else [])"

text \<open>
  \<^verbatim>\<open>PurePath.with_suffix\<close>, for a well-formed suffix argument such as
  \<^verbatim>\<open>'.webp'\<close>: a path with an empty name raises \<^verbatim>\<open>ValueError\<close>.
\<close>

definition with_suffix :: "path \<Rightarrow> string \<Rightarrow> exn + path" where
  "with_suffix p sfx =
     (let name = name_of p in
      if name = [] then Inl ValueError
      else
        (let old_suffix = suffix_of name;
             name' = (if old_suffix = [] then name @ sfx
                      else take (length name - length old_suffix) name @ sfx)
         in Inr (butlast p @ [name'])))"

text \<open>
  The two path flavours: patterns are compiled case-sensitively on POSIX and with
  \<^verbatim>\<open>re.IGNORECASE\<close> on Windows.
\<close>

datatype flavour = PosixFlavour | WindowsFlavour

definition ascii_lower :: "char \<Rightarrow> char" where
  "ascii_lower c =
     (case map_of (zip ''ABCDEFGHIJKLMNOPQRSTUVWXYZ'' ''abcdefghijklmnopqrstuvwxyz'') c of
        Some l \<Rightarrow> l
      | None \<Rightarrow> c)"

definition endswith :: "string \<Rightarrow> string \<Rightarrow> bool" where
  "endswith s e = (length e \<le> length s \<and> drop (length s - length e) s = e)"

text \<open>
  Whether a name matches the pattern \<^verbatim>\<open>f"*{ext}"\<close>: \<^verbatim>\<open>fnmatch.translate\<close> turns it
  into a regular expression that accepts exactly the names ending with \<open>ext\<close>.
\<close>

definition match_ext :: "flavour \<Rightarrow> string \<Rightarrow> string \<Rightarrow> bool" where
  "match_ext F ext name =
     (case F of
        PosixFlavour \<Rightarrow> endswith name ext
      | WindowsFlavour \<Rightarrow> endswith (map ascii_lower name) (map ascii_lower ext))"

section \<open>The file tree and the operating system\<close>

datatype node = File bytes | Dir "(string \<times> node) list"

fun is_dir :: "node \<Rightarrow> bool" where
  "is_dir (Dir kids) = True"
| "is_dir (File b) = False"

fun lookup :: "node \<Rightarrow> path \<Rightarrow> node option" where
  "lookup n [] = Some n"
| "lookup (File b) (c # cs) = None"
| "lookup (Dir kids) (c # cs) =
     (case map_of kids c of None \<Rightarrow> None | Some k \<Rightarrow> lookup k cs)"

text \<open>
  \<open>put p v n\<close> binds the entry at \<open>p\<close> to \<open>v\<close> (or removes it for \<open>None\<close>) when the
  directory that holds it exists, and leaves the tree alone otherwise.
\<close>

fun put :: "path \<Rightarrow> node option \<Rightarrow> node \<Rightarrow> node" where
  "put [] v n = n"
| "put (c # cs) v (File b) = File b"
| "put [c] v (Dir kids) =
     Dir (case v of None \<Rightarrow> AList.delete c kids | Some x \<Rightarrow> AList.update c x kids)"
| "put (c # cs) v (Dir kids) =
     Dir (case map_of kids c of
            None \<Rightarrow> kids
          | Some k \<Rightarrow> AList.update c (put cs v k) kids)"

text \<open>No directory of the tree lists a name twice.\<close>

fun distinct_names :: "node \<Rightarrow> bool" where
  "distinct_names (File b) = True"
| "distinct_names (Dir kids) =
     (distinct (map fst kids) \<and> (\<forall>k \<in> set kids. distinct_names (snd k)))"

text \<open>
  How a write to a file can fail: \<^verbatim>\<open>open(path, 'wb')\<close> raises, or \<^verbatim>\<open>f.write\<close> raises
  after some of the bytes have reached the file.
\<close>

datatype write_fault = OpenFails exn | WriteFails nat exn

text \<open>
  The two implementations of \<^verbatim>\<open>Path.rglob\<close> that the model has: the one of CPython 3.11
  and the one of CPython 3.12.
\<close>

datatype release = CPython_3_11 | CPython_3_12

text \<open>
  What a run depends on outside the file tree: the release of the interpreter, and the
  system calls that fail, by path; \<open>None\<close> is success.
\<close>

record os =
  interpreter :: release
  read_fault :: "path \<Rightarrow> exn option"
  write_fault :: "path \<Rightarrow> write_fault option"
  remove_fault :: "path \<Rightarrow> exn option"
  scandir_fault :: "path \<Rightarrow> exn option"
  pool_fault :: "exn option"

text \<open>\<^verbatim>\<open>with open(path, 'rb') as f: f.read()\<close>.\<close>

definition read_file :: "os \<Rightarrow> node \<Rightarrow> path \<Rightarrow> exn + bytes" where
  "read_file os tree p =
     (case lookup tree p of
        None \<Rightarrow> Inl FileNotFoundError
      | Some (Dir kids) \<Rightarrow> Inl IsADirectoryError
      | Some (File b) \<Rightarrow>
          (case read_fault os p of Some e \<Rightarrow> Inl e | None \<Rightarrow> Inr b))"

text \<open>
  \<^verbatim>\<open>with open(path, 'wb') as f: f.write(data)\<close>: the new tree, and the exception raised
  if any. A write that fails half way leaves a truncated file behind.
\<close>

definition write_file :: "os \<Rightarrow> node \<Rightarrow> path \<Rightarrow> bytes \<Rightarrow> node \<times> exn option" where
  "write_file os tree p data =
     (case lookup tree p of
        Some (Dir kids) \<Rightarrow> (tree, Some IsADirectoryError)
      | _ \<Rightarrow>
          (case lookup tree (butlast p) of
             Some (Dir kids) \<Rightarrow>
               (case write_fault os p of
                  Some (OpenFails e) \<Rightarrow> (tree, Some e)
                | Some (WriteFails n e) \<Rightarrow> (put p (Some (File (take n data))) tree, Some e)
                | None \<Rightarrow> (put p (Some (File data)) tree, None))
           | _ \<Rightarrow> (tree, Some FileNotFoundError)))"

text \<open>\<^verbatim>\<open>os.remove(path)\<close>.\<close>

definition remove_file :: "os \<Rightarrow> node \<Rightarrow> path \<Rightarrow> node \<times> exn option" where
  "remove_file os tree p =
     (case lookup tree p of
        None \<Rightarrow> (tree, Some FileNotFoundError)
      | Some (Dir kids) \<Rightarrow> (tree, Some IsADirectoryError)
      | Some (File b) \<Rightarrow>
          (case remove_fault os p of
             Some e \<Rightarrow> (tree, Some e)
           | None \<Rightarrow> (put p None tree, None)))"

text \<open>Concatenation of results, stopping at the first exception.\<close>

fun sequence :: "(exn + 'a list) list \<Rightarrow> exn + 'a list" where
  "sequence [] = Inr []"
| "sequence (Inl e # rs) = Inl e"
| "sequence (Inr xs # rs) = (case sequence rs of Inl e \<Rightarrow> Inl e | Inr ys \<Rightarrow> Inr (xs @ ys))"

text \<open>
  \<^verbatim>\<open>Path.rglob(f"*{ext}")\<close> as CPython 3.11 walks it
  (\<^verbatim>\<open>_RecursiveWildcardSelector\<close> over \<^verbatim>\<open>_WildcardSelector\<close>): every directory below the
  start, parent before children, yields its entries of any kind (files and
  directories alike) whose name matches. A \<^verbatim>\<open>PermissionError\<close> from \<^verbatim>\<open>scandir\<close>
  is swallowed (\<^verbatim>\<open>except PermissionError: return\<close>) and the directory contributes
  nothing; any other exception propagates.
\<close>

fun rglob_walk :: "os \<Rightarrow> flavour \<Rightarrow> string \<Rightarrow> path \<Rightarrow> node \<Rightarrow> exn + path list" where
  "rglob_walk os F ext d (File b) = Inr []"
| "rglob_walk os F ext d (Dir kids) =
     (case scandir_fault os d of
        Some e \<Rightarrow> if e = PermissionError then Inr [] else Inl e
      | None \<Rightarrow>
          (case sequence (map (\<lambda>(name, n). rglob_walk os F ext (d @ [name]) n) kids) of
             Inl e \<Rightarrow> Inl e
           | Inr below \<Rightarrow>
               Inr (map (\<lambda>(name, n). d @ [name])
                      (filter (\<lambda>(name, n). match_ext F ext name) kids) @ below)))"

text \<open>
  The recursive selector of CPython 3.11 yields each path once (its set \<^verbatim>\<open>yielded\<close>).
\<close>

fun dedup :: "'a list \<Rightarrow> 'a list \<Rightarrow> 'a list" where
  "dedup yielded [] = []"
| "dedup yielded (p # ps) =
     (if p \<in> set yielded then dedup yielded ps else p # dedup (p # yielded) ps)"

text \<open>
  CPython 3.12, \<^verbatim>\<open>_WildcardSelector._select_from\<close> on one starting point: the entries of
  that directory, of any kind, whose name matches. An \<^verbatim>\<open>OSError\<close> from \<^verbatim>\<open>scandir\<close> is
  swallowed (\<^verbatim>\<open>except OSError: pass\<close>); on a path that is no directory \<^verbatim>\<open>scandir\<close>
  raises one.
\<close>

fun wildcard_select :: "os \<Rightarrow> flavour \<Rightarrow> string \<Rightarrow> path \<Rightarrow> node \<Rightarrow> exn + path list" where
  "wildcard_select os F ext d (File b) = Inr []"
| "wildcard_select os F ext d (Dir kids) =
     (case scandir_fault os d of
        Some e \<Rightarrow> if is_OSError e then Inr [] else Inl e
      | None \<Rightarrow>
          Inr (map (\<lambda>(name, n). d @ [name])
                 (filter (\<lambda>(name, n). match_ext F ext name) kids)))"

text \<open>
  CPython 3.12, \<^verbatim>\<open>_RecursiveWildcardSelector._iterate_directories\<close> over \<^verbatim>\<open>Path.walk\<close>:
  \<^verbatim>\<open>walk\<close> visits the directories parent first and skips one whose \<^verbatim>\<open>scandir\<close> raises
  \<^verbatim>\<open>OSError\<close>; when it has listed a directory, each subdirectory in turn is a starting
  point of the wildcard selector, and only then does \<^verbatim>\<open>walk\<close> descend into the first
  subdirectory. The function returns, in the order in which the generator makes them,
  the outcomes of the calls below the directory \<open>d\<close>: the paths a starting point
  yields, or the exception that ends the enumeration.
\<close>

fun walk_select :: "os \<Rightarrow> flavour \<Rightarrow> string \<Rightarrow> path \<Rightarrow> node \<Rightarrow> (exn + path list) list" where
  "walk_select os F ext d (File b) = []"
| "walk_select os F ext d (Dir kids) =
     (case scandir_fault os d of
        Some e \<Rightarrow> [if is_OSError e then Inr [] else Inl e]
      | None \<Rightarrow>
          map (\<lambda>(name, n). wildcard_select os F ext (d @ [name]) n)
            (filter (\<lambda>(name, n). is_dir n) kids)
          @ concat (map (\<lambda>(name, n). walk_select os F ext (d @ [name]) n)
                      (filter (\<lambda>(name, n). is_dir n) kids)))"

text \<open>
  \<^verbatim>\<open>Path.rglob\<close> from the start directory. On both releases \<^verbatim>\<open>select_from\<close> yields
  nothing when the start is not a directory. On CPython 3.12 the start directory is
  the first starting point, and nothing removes duplicates (none arise).
\<close>

definition rglob :: "os \<Rightarrow> flavour \<Rightarrow> node \<Rightarrow> string \<Rightarrow> exn + path list" where
  "rglob os F tree ext =
     (case interpreter os of
        CPython_3_11 \<Rightarrow>
          (case rglob_walk os F ext [] tree of Inl e \<Rightarrow> Inl e | Inr ps \<Rightarrow> Inr (dedup [] ps))
      | CPython_3_12 \<Rightarrow>
          if is_dir tree
          then sequence (wildcard_select os F ext [] tree # walk_select os F ext [] tree)
          else Inr [])"

section \<open>Conversion decision: \<^verbatim>\<open>convert_to_webp\<close>\<close>

text \<open>
  The calls the conversion makes to the encoder and to the similarity estimator are
  recorded, in order, next to the file tree: the record is not program state, it is
  what an observer of the codec would see.
\<close>

datatype call = Save bool nat | Analyze nat

record world =
  fs :: node
  calls :: "call list"

text \<open>
  The loop \<^verbatim>\<open>for quality in [90, 85, 80]\<close> over the state
  \<^verbatim>\<open>(best_size, best_quality, best_data)\<close>; \<^verbatim>\<open>img.save\<close> may raise.
\<close>

fun quality_loop ::
  "'img pil \<Rightarrow> 'img \<Rightarrow> bytes \<Rightarrow> nat list \<Rightarrow> nat \<times> nat \<times> bytes option \<Rightarrow> call list
     \<Rightarrow> (exn + nat \<times> nat \<times> bytes option) \<times> call list" where
  "quality_loop P img original_data [] best trace = (Inr best, trace)"
| "quality_loop P img original_data (quality # qs) (best_size, best_quality, best_data) trace =
     (case pil_save_webp P img False quality of
        None \<Rightarrow> (Inl EncodeError, trace @ [Save False quality])
      | Some webp_data \<Rightarrow>
          if length webp_data < best_size then
            (let similarity = analyze_image_quality P original_data webp_data in
             if 95 / 100 \<le> similarity
             then quality_loop P img original_data qs
                    (length webp_data, quality, Some webp_data)
                    (trace @ [Save False quality, Analyze quality])
             else quality_loop P img original_data qs
                    (best_size, best_quality, best_data)
                    (trace @ [Save False quality, Analyze quality]))
          else quality_loop P img original_data qs
                 (best_size, best_quality, best_data) (trace @ [Save False quality]))"

text \<open>
  The block \<^verbatim>\<open>with Image.open(image_path) as img\<close>: the image is decoded from the
  bytes of the file just read. The result \<open>Inr None\<close> is the early
  \<^verbatim>\<open>return None\<close> of the quality search, \<open>Inr (Some webp_data)\<close> the candidate
  that goes on to the size comparison.
\<close>

definition encode_candidate ::
  "'img pil \<Rightarrow> bytes \<Rightarrow> (exn + bytes option) \<times> call list" where
  "encode_candidate P original_data =
     (case pil_open P original_data of
        None \<Rightarrow> (Inl DecodeError, [])
      | Some img \<Rightarrow>
          if pil_mode P img \<in> set [''RGBA'', ''LA''] then
            (if \<not> pil_getchannel_A P img then (Inl DecodeError, [])
             else
               (case pil_save_webp P img True 90 of
                  None \<Rightarrow> (Inl EncodeError, [Save True 90])
                | Some webp_data \<Rightarrow> (Inr (Some webp_data), [Save True 90])))
          else
            (case pil_convert_RGB P img of
               None \<Rightarrow> (Inl DecodeError, [])
             | Some img' \<Rightarrow>
                 (case quality_loop P img' original_data [90, 85, 80]
                         (length original_data, 90, None) [] of
                    (Inl e, trace) \<Rightarrow> (Inl e, trace)
                  | (Inr (best_size, best_quality, best_data), trace) \<Rightarrow> (Inr best_data, trace))))"

text \<open>The two messages the function returns, with the values they are formatted from.\<close>

datatype message =
    Converted_message string nat nat
  | Failed_message string exn

type_synonym result = "(bool \<times> message) option"

text \<open>
  Lines 93 to 107: the size comparison, the write of the sibling file and the removal
  of the original.
\<close>

definition replace_original ::
  "os \<Rightarrow> node \<Rightarrow> path \<Rightarrow> nat \<Rightarrow> bytes \<Rightarrow> (exn + result) \<times> node" where
  "replace_original os tree image_path original_size webp_data =
     (let webp_size = length webp_data in
      if original_size \<le> webp_size then (Inr None, tree)
      else
        (case with_suffix image_path ''.webp'' of
           Inl e \<Rightarrow> (Inl e, tree)
         | Inr webp_path \<Rightarrow>
             (case write_file os tree webp_path webp_data of
                (tree1, Some e) \<Rightarrow> (Inl e, tree1)
              | (tree1, None) \<Rightarrow>
                  (case remove_file os tree1 image_path of
                     (tree2, Some e) \<Rightarrow> (Inl e, tree2)
                   | (tree2, None) \<Rightarrow>
                       (Inr (Some (True,
                          Converted_message (name_of image_path) original_size webp_size)),
                        tree2)))))"

text \<open>The body of the \<^verbatim>\<open>try\<close> block of \<^verbatim>\<open>convert_to_webp\<close>.\<close>

definition convert_to_webp_body ::
  "os \<Rightarrow> 'img pil \<Rightarrow> world \<Rightarrow> path \<Rightarrow> (exn + result) \<times> world" where
  "convert_to_webp_body os P w image_path =
     (case read_file os (fs w) image_path of
        Inl e \<Rightarrow> (Inl e, w)
      | Inr original_data \<Rightarrow>
          (let original_size = length original_data in
           case encode_candidate P original_data of
             (Inl e, trace) \<Rightarrow> (Inl e, w\<lparr>calls := calls w @ trace\<rparr>)
           | (Inr None, trace) \<Rightarrow> (Inr None, w\<lparr>calls := calls w @ trace\<rparr>)
           | (Inr (Some webp_data), trace) \<Rightarrow>
               (case replace_original os (fs w) image_path original_size webp_data of
                  (r, tree') \<Rightarrow> (r, \<lparr>fs = tree', calls = calls w @ trace\<rparr>))))"

text \<open>\<^verbatim>\<open>except Exception as e: return False, f"Failed to convert ..."\<close>.\<close>

definition convert_to_webp :: "os \<Rightarrow> 'img pil \<Rightarrow> world \<Rightarrow> path \<Rightarrow> result \<times> world" where
  "convert_to_webp os P w image_path =
     (case convert_to_webp_body os P w image_path of
        (Inl e, w') \<Rightarrow> (Some (False, Failed_message (name_of image_path) e), w')
      | (Inr r, w') \<Rightarrow> (r, w'))"

section \<open>Batch driver: \<^verbatim>\<open>process_directory\<close> and \<^verbatim>\<open>main\<close>\<close>

text \<open>
  \<^verbatim>\<open>for ext in ('.jpg', '.jpeg', '.png'): image_files.extend(directory.rglob(...))\<close>.
\<close>

definition image_files :: "os \<Rightarrow> flavour \<Rightarrow> node \<Rightarrow> exn + path list" where
  "image_files os F tree =
     sequence [rglob os F tree ''.jpg'', rglob os F tree ''.jpeg'', rglob os F tree ''.png'']"

text \<open>
  \<^verbatim>\<open>executor.map(convert_to_webp, image_files)\<close>: the results come back in the order
  of the list. The workers are modelled as running one after the other in that order.
\<close>

fun executor_map :: "os \<Rightarrow> 'img pil \<Rightarrow> path list \<Rightarrow> world \<Rightarrow> result list \<times> world" where
  "executor_map os P [] w = ([], w)"
| "executor_map os P (p # ps) w =
     (case convert_to_webp os P w p of
        (r, w') \<Rightarrow> (case executor_map os P ps w' of (rs, w'') \<Rightarrow> (r # rs, w'')))"

text \<open>
  The loop over the results, on the counters
  \<^verbatim>\<open>(success_count, skip_count, error_count)\<close>.
\<close>

fun tally :: "result list \<Rightarrow> nat \<times> nat \<times> nat \<Rightarrow> nat \<times> nat \<times> nat" where
  "tally [] counts = counts"
| "tally (None # rs) (success_count, skip_count, error_count) =
     tally rs (success_count, skip_count + 1, error_count)"
| "tally (Some (success, message) # rs) (success_count, skip_count, error_count) =
     (if success then tally rs (success_count + 1, skip_count, error_count)
      else tally rs (success_count, skip_count, error_count + 1))"

definition process_directory ::
  "os \<Rightarrow> flavour \<Rightarrow> 'img pil \<Rightarrow> world \<Rightarrow> (exn + nat \<times> nat \<times> nat) \<times> world" where
  "process_directory os F P w =
     (case image_files os F (fs w) of
        Inl e \<Rightarrow> (Inl e, w)
      | Inr files \<Rightarrow>
          (case pool_fault os of
             Some e \<Rightarrow> (Inl e, w)
           | None \<Rightarrow>
               (case executor_map os P files w of
                  (results, w') \<Rightarrow> (Inr (tally results (0, 0, 0)), w'))))"

text \<open>
  How the process ends: after logging the summary of the three counts, or through
  \<^verbatim>\<open>sys.exit(1)\<close>.
\<close>

datatype ending = Summary nat nat nat | SysExit nat

definition main :: "os \<Rightarrow> flavour \<Rightarrow> 'img pil \<Rightarrow> world \<Rightarrow> ending \<times> world" where
  "main os F P w =
     (case process_directory os F P w of
        (Inl e, w') \<Rightarrow> (SysExit 1, w')
      | (Inr (success, skipped, errors), w') \<Rightarrow> (Summary success skipped errors, w'))"

section \<open>A small codec and file tree to run the definitions on\<close>

text \<open>
  In this codec an image is its own file: the first byte tells the mode (1 for RGBA),
  every further byte is one grey pixel. Files shorter than two bytes do not decode. The
  lossy encoder keeps a prefix of the file, shorter at lower quality; the lossless
  encoder appends one byte.
\<close>

definition example_pil :: "bytes pil" where
  "example_pil =
     \<lparr> pil_open = (\<lambda>b. if length b < 2 then None else Some b),
       pil_mode = (\<lambda>img. if hd img = 1 then ''RGBA'' else ''RGB''),
       pil_size = (\<lambda>img. (length img - 1, 1)),
       pil_getchannel_A = (\<lambda>img. True),
       pil_convert_RGB = (\<lambda>img. Some img),
       pil_resize = (\<lambda>img (w, h). Some (hd img # take (w * h) (tl img @ replicate (w * h) 0))),
       pil_getdata = (\<lambda>img. map (\<lambda>v. (v, v, v)) (tl img)),
       pil_save_webp = (\<lambda>img lossless quality.
          if lossless then Some (img @ [0]) else Some (take (quality div 10 - 4) img)) \<rparr>"

definition example_os :: os where
  "example_os =
     \<lparr> interpreter = CPython_3_11,
       read_fault = (\<lambda>p. None), write_fault = (\<lambda>p. None), remove_fault = (\<lambda>p. None),
       scandir_fault = (\<lambda>p. None), pool_fault = None \<rparr>"

definition example_photo :: bytes where
  "example_photo = [0, 200, 100, 50, 3, 2, 1, 1]"

definition example_tree :: node where
  "example_tree =
     Dir [(''photo.jpg'', File example_photo),
          (''album.jpg'', Dir []),
          (''sub'', Dir [(''icon.png'', File [1, 9, 9])]),
          (''notes.txt'', File [7])]"

definition example_world :: world where
  "example_world = \<lparr> fs = example_tree, calls = [] \<rparr>"

section \<open>The three kinds of result\<close>

text \<open>
  \<^verbatim>\<open>convert_to_webp\<close> returns \<^verbatim>\<open>(True, message)\<close> for a converted file, \<^verbatim>\<open>None\<close>
  for a skipped one and \<^verbatim>\<open>(False, message)\<close> for a failed one.
\<close>

fun is_converted :: "result \<Rightarrow> bool" where
  "is_converted (Some (True, m)) = True"
| "is_converted r = False"

fun is_skipped :: "result \<Rightarrow> bool" where
  "is_skipped None = True"
| "is_skipped (Some r) = False"

fun is_failed :: "result \<Rightarrow> bool" where
  "is_failed (Some (False, m)) = True"
| "is_failed r = False"

text \<open>The state of the example after the batch has run.\<close>

definition example_world_after :: world where
  "example_world_after =
     \<lparr> fs = Dir [(''album.jpg'', Dir []),
                 (''sub'', Dir [(''icon.png'', File [1, 9, 9])]),
                 (''notes.txt'', File [7]),
                 (''photo.webp'', File [0, 200, 100, 50])],
       calls = [Save False 90, Analyze 90, Save False 85, Analyze 85, Save False 80,
                Save True 90] \<rparr>"

section \<open>The acceptance test of the quality search, in the specification's words\<close>

text \<open>
  A level is accepted when its encoding is strictly smaller than the best size seen so
  far and its similarity to the original is at least 0.95.
\<close>

definition accepted :: "'img pil \<Rightarrow> bytes \<Rightarrow> nat \<Rightarrow> bytes \<Rightarrow> bool" where
  "accepted P original_data best_size webp_data =
     (length webp_data < best_size
      \<and> 95 / 100 \<le> analyze_image_quality P original_data webp_data)"

text \<open>
  A second codec for the boundary of the gate: its lossy encoder drops one pixel at
  quality 90, two at 85 and three at 80. Dropping the last pixel of the picture below
  gives a similarity of exactly 0.95.
\<close>

definition boundary_pil :: "bytes pil" where
  "boundary_pil =
     example_pil \<lparr> pil_save_webp := (\<lambda>img lossless quality.
        Some (take (length img - (95 - quality) div 5) img)) \<rparr>"

definition boundary_photo :: bytes where
  "boundary_photo = [0, 0, 0, 0, 0, 0, 0, 0, 0, 0, 0, 0, 0, 0, 0, 0, 0, 0, 0, 1, 255]"

section \<open>The supported input set\<close>

text \<open>
  A name is supported when it matches one of the three patterns
  \<^verbatim>\<open>*.jpg\<close>, \<^verbatim>\<open>*.jpeg\<close>, \<^verbatim>\<open>*.png\<close> that \<^verbatim>\<open>process_directory\<close> globs for.
\<close>

definition supported :: "flavour \<Rightarrow> string \<Rightarrow> bool" where
  "supported F name = (\<exists>ext \<in> set [''.jpg'', ''.jpeg'', ''.png'']. match_ext F ext name)"

section \<open>Two operating systems with a start directory that cannot be listed\<close>

text \<open>
  In the first, \<^verbatim>\<open>scandir\<close> on the start directory raises \<^verbatim>\<open>PermissionError\<close>; in the
  second it raises another \<^verbatim>\<open>OSError\<close> (an input/output error, say). Both run
  CPython 3.11, as \<open>example_os\<close> does.
\<close>

definition unreadable_os :: os where
  "unreadable_os =
     example_os \<lparr> scandir_fault := (\<lambda>p. if p = [] then Some PermissionError else None) \<rparr>"

definition broken_os :: os where
  "broken_os =
     example_os \<lparr> scandir_fault := (\<lambda>p. if p = [] then Some OSError else None) \<rparr>"

section \<open>What a path holds\<close>

text \<open>
  What a look at one path of the tree finds: nothing, a regular file with its bytes, or
  a directory (whatever it contains).
\<close>

datatype entry = Absent | Regular bytes | Directory

definition entry_at :: "node \<Rightarrow> path \<Rightarrow> entry" where
  "entry_at tree p =
     (case lookup tree p of
        None \<Rightarrow> Absent
      | Some (File b) \<Rightarrow> Regular b
      | Some (Dir kids) \<Rightarrow> Directory)"

text \<open>The paths that a list of outcomes holds, exceptions left out.\<close>

definition yields :: "(exn + 'a list) list \<Rightarrow> 'a list" where
  "yields rs = concat (map (\<lambda>r. case r of Inl e \<Rightarrow> [] | Inr ys \<Rightarrow> ys) rs)"

section \<open>Runs that leave an original beside a replacement, or a replacement overwritten\<close>





section \<open>Properties of the similarity estimator\<close>

lemma diff_loop_sum: "diff_loop ps d = d + (\<Sum>(p, q) \<leftarrow> ps. pixel_diff p q)"
  by (induction ps d rule: diff_loop.induct) simp_all

lemma channel_diff_bound: "(uint (a :: 8 word) - uint (b :: 8 word))\<^sup>2 \<le> 255\<^sup>2"
proof -
  have a: "0 \<le> uint a" "uint a < 256"
    using uint_lt2p [of a] by simp_all
  have b: "0 \<le> uint b" "uint b < 256"
    using uint_lt2p [of b] by simp_all
  have "\<bar>uint a - uint b\<bar> \<le> 255"
    using a b by linarith
  then have "\<bar>uint a - uint b\<bar>\<^sup>2 \<le> 255\<^sup>2"
    by (rule power_mono) simp
  then show ?thesis by simp
qed

lemma pixel_diff_nonneg: "0 \<le> pixel_diff p q"
  by (cases p; cases q) simp

lemma pixel_diff_bound: "pixel_diff p q \<le> 3 * 255\<^sup>2"
proof (cases p; cases q)
  fix r1 g1 b1 r2 g2 b2
  assume p: "p = (r1, g1, b1)" and q: "q = (r2, g2, b2)"
  show ?thesis
    using channel_diff_bound [of r1 r2] channel_diff_bound [of g1 g2]
      channel_diff_bound [of b1 b2]
    unfolding p q pixel_diff.simps by linarith
qed

lemma sum_diff_nonneg: "0 \<le> (\<Sum>(p, q) \<leftarrow> ps. pixel_diff p q)"
  by (induction ps) (auto simp: pixel_diff_nonneg)

lemma sum_diff_bound: "(\<Sum>(p, q) \<leftarrow> ps. pixel_diff p q) \<le> int (length ps) * (3 * 255\<^sup>2)"
proof (induction ps)
  case Nil
  show ?case by simp
next
  case (Cons x ps)
  obtain p q where x: "x = (p, q)" by (cases x)
  show ?case
    using Cons.IH pixel_diff_bound [of p q] by (simp add: x algebra_simps)
qed

lemma sum_diff_zip_bound:
  "(\<Sum>(p, q) \<leftarrow> zip xs ys. pixel_diff p q) \<le> int (length xs) * (3 * 255\<^sup>2)"
proof -
  have "(\<Sum>(p, q) \<leftarrow> zip xs ys. pixel_diff p q) \<le> int (length (zip xs ys)) * (3 * 255\<^sup>2)"
    by (rule sum_diff_bound)
  also have "\<dots> \<le> int (length xs) * (3 * 255\<^sup>2)"
    by (intro mult_right_mono) simp_all
  finally show ?thesis .
qed

lemma score_in_unit_interval:
  fixes xs ys :: "pixel list"
  assumes "xs \<noteq> []"
  shows "0 \<le> 1 - (of_int (diff_loop (zip xs ys) 0) :: rat) / of_nat (length xs * 3 * 255\<^sup>2)"
    and "1 - (of_int (diff_loop (zip xs ys) 0) :: rat) / of_nat (length xs * 3 * 255\<^sup>2) \<le> 1"
proof -
  let ?d = "diff_loop (zip xs ys) 0"
  let ?m = "length xs * 3 * 255\<^sup>2"
  have m: "0 < (of_nat ?m :: rat)"
    using assms by simp
  have d0: "0 \<le> ?d"
    by (simp add: diff_loop_sum sum_diff_nonneg)
  have "?d \<le> int (length xs) * (3 * 255\<^sup>2)"
    using sum_diff_zip_bound [of xs ys] by (simp add: diff_loop_sum)
  then have "?d \<le> int ?m"
    by simp
  then have "(of_int ?d :: rat) \<le> of_int (int ?m)"
    by (simp only: of_int_le_iff)
  then have dm: "(of_int ?d :: rat) \<le> of_nat ?m"
    by simp
  have "(of_int ?d :: rat) / of_nat ?m \<le> 1"
    using dm m by (simp add: divide_le_eq)
  then show "0 \<le> 1 - (of_int ?d :: rat) / of_nat ?m"
    by simp
  have "0 \<le> (of_int ?d :: rat) / of_nat ?m"
    using d0 m by (simp add: zero_le_divide_iff)
  then show "1 - (of_int ?d :: rat) / of_nat ?m \<le> 1"
    by simp
qed

lemma analyze_body_range:
  assumes "analyze_image_quality_body P original_data webp_data = Inr s"
  shows "0 \<le> s \<and> s \<le> 1"
  using assms score_in_unit_interval
  unfolding analyze_image_quality_body_def Let_def
  by (auto split: option.splits if_splits)

section \<open>Running the example\<close>

lemma example_image_files:
  "image_files example_os PosixFlavour example_tree =
     Inr [[''photo.jpg''], [''album.jpg''], [''sub'', ''icon.png'']]"
  by (simp add: image_files_def rglob_def example_tree_def example_os_def match_ext_def
      endswith_def)

text \<open>The walk of CPython 3.12 yields the same list on this tree.\<close>

lemma example_image_files_later:
  "image_files (example_os \<lparr>interpreter := CPython_3_12\<rparr>) PosixFlavour example_tree =
     Inr [[''photo.jpg''], [''album.jpg''], [''sub'', ''icon.png'']]"
  by (simp add: image_files_def rglob_def example_tree_def example_os_def match_ext_def
      endswith_def)

lemma example_similarity_90:
  "analyze_image_quality example_pil example_photo [0, 200, 100, 50, 3] = 151723 / 151725"
  by (simp add: analyze_image_quality_def analyze_image_quality_body_def example_pil_def
      example_photo_def)

lemma example_similarity_85:
  "analyze_image_quality example_pil example_photo [0, 200, 100, 50] = 30344 / 30345"
  by (simp add: analyze_image_quality_def analyze_image_quality_body_def example_pil_def
      example_photo_def)

lemma example_saves:
  "pil_save_webp example_pil example_photo False 90 = Some [0, 200, 100, 50, 3]"
  "pil_save_webp example_pil example_photo False 85 = Some [0, 200, 100, 50]"
  "pil_save_webp example_pil example_photo False 80 = Some [0, 200, 100, 50]"
  by (simp_all add: example_pil_def example_photo_def)

lemma example_encode_photo:
  "encode_candidate example_pil example_photo =
     (Inr (Some [0, 200, 100, 50]),
      [Save False 90, Analyze 90, Save False 85, Analyze 85, Save False 80])"
proof -
  have o: "pil_open example_pil example_photo = Some example_photo"
    and m: "pil_mode example_pil example_photo = ''RGB''"
    and c: "pil_convert_RGB example_pil example_photo = Some example_photo"
    and l: "length example_photo = 8"
    by (simp_all add: example_pil_def example_photo_def)
  show ?thesis
    unfolding encode_candidate_def
    by (simp add: o m c l example_saves example_similarity_90 example_similarity_85)
qed

lemma example_encode_icon:
  "encode_candidate example_pil [1, 9, 9] = (Inr (Some [1, 9, 9, 0]), [Save True 90])"
  by (simp add: encode_candidate_def example_pil_def)

lemma example_convert_photo:
  "convert_to_webp example_os example_pil example_world [''photo.jpg''] =
     (Some (True, Converted_message ''photo.jpg'' 8 4),
      \<lparr> fs = Dir [(''album.jpg'', Dir []),
                  (''sub'', Dir [(''icon.png'', File [1, 9, 9])]),
                  (''notes.txt'', File [7]),
                  (''photo.webp'', File [0, 200, 100, 50])],
        calls = [Save False 90, Analyze 90, Save False 85, Analyze 85, Save False 80] \<rparr>)"
proof -
  have r: "read_file example_os (fs example_world) [''photo.jpg''] = Inr example_photo"
    by (simp add: read_file_def example_world_def example_tree_def example_os_def)
  have s: "with_suffix [''photo.jpg''] ''.webp'' = Inr [''photo.webp'']"
    by (simp add: with_suffix_def name_of_def suffix_of_def)
  have l: "length example_photo = 8"
    by (simp add: example_photo_def)
  have p: "replace_original example_os (fs example_world) [''photo.jpg''] 8 [0, 200, 100, 50] =
      (Inr (Some (True, Converted_message ''photo.jpg'' 8 4)),
       Dir [(''album.jpg'', Dir []),
            (''sub'', Dir [(''icon.png'', File [1, 9, 9])]),
            (''notes.txt'', File [7]),
            (''photo.webp'', File [0, 200, 100, 50])])"
    unfolding replace_original_def
    by (simp add: s write_file_def remove_file_def example_world_def example_tree_def
        example_os_def name_of_def)
  show ?thesis
    unfolding convert_to_webp_def convert_to_webp_body_def
    by (simp add: r l example_encode_photo p) (simp add: example_world_def)
qed

section \<open>Claims about the similarity estimator\<close>

text \<open>
  C5. The similarity estimator never propagates an exception: whenever the body of its
  \<^verbatim>\<open>try\<close> block raises (a decode error of either input among the cases) the
  function returns exactly 0, which is below the 0.95 gate; otherwise it returns the
  score of the body; and in every case the value returned lies between 0 and 1.
\<close>

theorem analyze_image_quality_fail_closed:
  "(case analyze_image_quality_body P original_data webp_data of
      Inl e \<Rightarrow> analyze_image_quality P original_data webp_data = 0
    | Inr s \<Rightarrow> analyze_image_quality P original_data webp_data = s)
   \<and> (pil_open P original_data = None \<or> pil_open P webp_data = None \<longrightarrow>
        analyze_image_quality P original_data webp_data = 0
        \<and> \<not> 95 / 100 \<le> analyze_image_quality P original_data webp_data)
   \<and> 0 \<le> analyze_image_quality P original_data webp_data
   \<and> analyze_image_quality P original_data webp_data \<le> 1"
proof (intro conjI)
  show "case analyze_image_quality_body P original_data webp_data of
      Inl e \<Rightarrow> analyze_image_quality P original_data webp_data = 0
    | Inr s \<Rightarrow> analyze_image_quality P original_data webp_data = s"
    by (simp add: analyze_image_quality_def split: sum.splits)
  show "pil_open P original_data = None \<or> pil_open P webp_data = None \<longrightarrow>
        analyze_image_quality P original_data webp_data = 0
        \<and> \<not> 95 / 100 \<le> analyze_image_quality P original_data webp_data"
    by (auto simp: analyze_image_quality_def analyze_image_quality_body_def
        split: option.splits)
  show "0 \<le> analyze_image_quality P original_data webp_data"
    using analyze_body_range [of P original_data webp_data]
    by (simp add: analyze_image_quality_def split: sum.splits)
  show "analyze_image_quality P original_data webp_data \<le> 1"
    using analyze_body_range [of P original_data webp_data]
    by (simp add: analyze_image_quality_def split: sum.splits)
qed

theorem analyze_image_quality_fail_closed_witness:
  "pil_open example_pil [] = None
   \<and> analyze_image_quality example_pil example_photo [] = 0
   \<and> \<not> 95 / 100 \<le> analyze_image_quality example_pil example_photo []"
  using analyze_image_quality_fail_closed [of example_pil example_photo "[]"]
  by (simp add: example_pil_def)

text \<open>
  C4. When both inputs decode and convert to RGB, and the original has at least one
  pixel, the score is one minus the sum of the squared per-channel differences divided
  by the original's pixel count times 3 times \<open>255\<^sup>2\<close>. The first image enters the sum
  as it is; it is the second one, the candidate, that is resized to the first one's
  size when the sizes differ.
\<close>

theorem analyze_image_quality_formula:
  assumes "pil_open P original_data = Some img1"
    and "pil_open P webp_data = Some img2"
    and "pil_convert_RGB P img1 = Some original"
    and "pil_convert_RGB P img2 = Some candidate"
    and "(if pil_size P original \<noteq> pil_size P candidate
          then pil_resize P candidate (pil_size P original) else Some candidate)
         = Some resized"
    and "pil_getdata P original \<noteq> []"
  shows "analyze_image_quality P original_data webp_data
         = spec_similarity (pil_getdata P original) (pil_getdata P resized)"
proof -
  have "analyze_image_quality_body P original_data webp_data
        = Inr (1 - of_int (diff_loop (zip (pil_getdata P original) (pil_getdata P resized)) 0)
                   / of_nat (length (pil_getdata P original) * 3 * 255\<^sup>2))"
    using assms unfolding analyze_image_quality_body_def Let_def by simp
  then show ?thesis
    by (simp add: analyze_image_quality_def spec_similarity_def diff_loop_sum)
qed

theorem analyze_image_quality_formula_witness:
  "pil_size example_pil example_photo \<noteq> pil_size example_pil [0, 200, 100, 50]
   \<and> pil_resize example_pil [0, 200, 100, 50] (pil_size example_pil example_photo)
       = Some [0, 200, 100, 50, 0, 0, 0, 0]
   \<and> analyze_image_quality example_pil example_photo [0, 200, 100, 50]
       = spec_similarity (pil_getdata example_pil example_photo)
           (pil_getdata example_pil [0, 200, 100, 50, 0, 0, 0, 0])
   \<and> spec_similarity (pil_getdata example_pil example_photo)
           (pil_getdata example_pil [0, 200, 100, 50, 0, 0, 0, 0]) = 30344 / 30345"
proof -
  have o: "pil_open example_pil example_photo = Some example_photo"
    and w: "pil_open example_pil [0, 200, 100, 50] = Some [0, 200, 100, 50]"
    and c1: "pil_convert_RGB example_pil example_photo = Some example_photo"
    and c2: "pil_convert_RGB example_pil [0, 200, 100, 50] = Some [0, 200, 100, 50]"
    and s: "pil_size example_pil example_photo \<noteq> pil_size example_pil [0, 200, 100, 50]"
    and r: "pil_resize example_pil [0, 200, 100, 50] (pil_size example_pil example_photo)
            = Some [0, 200, 100, 50, 0, 0, 0, 0]"
    and d: "pil_getdata example_pil example_photo \<noteq> []"
    by (simp_all add: example_pil_def example_photo_def)
  have i: "(if pil_size example_pil example_photo \<noteq> pil_size example_pil [0, 200, 100, 50]
            then pil_resize example_pil [0, 200, 100, 50] (pil_size example_pil example_photo)
            else Some [0, 200, 100, 50]) = Some [0, 200, 100, 50, 0, 0, 0, 0]"
    using s r by simp
  show ?thesis
    using analyze_image_quality_formula [OF o w c1 c2 i d] s r example_similarity_85
    by simp
qed

section \<open>Claims about the batch driver's accounting\<close>

lemma tally_counts:
  "tally rs (a, b, c) =
     (a + length (filter is_converted rs), b + length (filter is_skipped rs),
      c + length (filter is_failed rs))"
proof (induction rs arbitrary: a b c)
  case Nil
  show ?case by simp
next
  case (Cons r rs)
  show ?case
  proof (cases r)
    case None
    then show ?thesis by (simp add: Cons.IH)
  next
    case (Some sm)
    obtain success m where sm: "sm = (success, m)" by (cases sm)
    show ?thesis by (cases success) (simp_all add: Some sm Cons.IH)
  qed
qed

lemma result_kinds:
  "length (filter is_converted rs) + length (filter is_skipped rs)
     + length (filter is_failed rs) = length rs"
proof (induction rs)
  case Nil
  show ?case by simp
next
  case (Cons r rs)
  show ?case
  proof (cases r)
    case None
    then show ?thesis using Cons.IH by simp
  next
    case (Some sm)
    obtain success m where sm: "sm = (success, m)" by (cases sm)
    show ?thesis using Cons.IH by (cases success) (simp_all add: Some sm)
  qed
qed

lemma executor_map_length:
  "executor_map os P ps w = (rs, w') \<Longrightarrow> length rs = length ps"
  by (induction ps arbitrary: w rs w') (auto split: prod.splits)

lemma executor_map_append:
  "executor_map os P (ps @ qs) w =
     (case executor_map os P ps w of
        (rs, w1) \<Rightarrow> (case executor_map os P qs w1 of (rs', w2) \<Rightarrow> (rs @ rs', w2)))"
  by (induction ps arbitrary: w) (auto split: prod.splits)

lemma example_convert_album:
  "convert_to_webp example_os example_pil w [''album.jpg''] =
     (if lookup (fs w) [''album.jpg''] = Some (Dir [])
      then (Some (False, Failed_message ''album.jpg'' IsADirectoryError), w)
      else convert_to_webp example_os example_pil w [''album.jpg''])"
  by (simp add: convert_to_webp_def convert_to_webp_body_def read_file_def name_of_def)

lemma example_convert_icon:
  assumes "lookup (fs w) [''sub'', ''icon.png''] = Some (File [1, 9, 9])"
  shows "convert_to_webp example_os example_pil w [''sub'', ''icon.png''] =
     (None, w\<lparr>calls := calls w @ [Save True 90]\<rparr>)"
proof -
  have r: "read_file example_os (fs w) [''sub'', ''icon.png''] = Inr [1, 9, 9]"
    using assms by (simp add: read_file_def example_os_def)
  show ?thesis
    unfolding convert_to_webp_def convert_to_webp_body_def
    by (simp add: r example_encode_icon replace_original_def)
qed

lemma example_executor_map:
  "executor_map example_os example_pil
     [[''photo.jpg''], [''album.jpg''], [''sub'', ''icon.png'']] example_world =
   ([Some (True, Converted_message ''photo.jpg'' 8 4),
     Some (False, Failed_message ''album.jpg'' IsADirectoryError),
     None], example_world_after)"
  by (simp add: example_convert_photo example_convert_album example_convert_icon
      example_world_after_def)

lemma example_process_directory:
  "process_directory example_os PosixFlavour example_pil example_world =
     (Inr (1, 1, 1), example_world_after)"
proof -
  have f: "image_files example_os PosixFlavour (fs example_world) =
      Inr [[''photo.jpg''], [''album.jpg''], [''sub'', ''icon.png'']]"
    using example_image_files by (simp add: example_world_def)
  have p: "pool_fault example_os = None"
    by (simp add: example_os_def)
  show ?thesis
    unfolding process_directory_def
    by (simp add: f p example_executor_map del: executor_map.simps)
qed

text \<open>
  C10. Whenever \<^verbatim>\<open>process_directory\<close> returns, the three counters (natural numbers,
  so never negative) add up to the number of enumerated files, and each counter is the
  number of results of its kind: the \<^verbatim>\<open>(True, _)\<close> results for the converted count,
  the \<^verbatim>\<open>None\<close> results for the skipped count, the \<^verbatim>\<open>(False, _)\<close> results for the
  failed count.
\<close>

theorem process_directory_tally:
  assumes "process_directory os F P w = (Inr (success_count, skip_count, error_count), w')"
  shows "\<exists>files results.
           image_files os F (fs w) = Inr files
         \<and> executor_map os P files w = (results, w')
         \<and> length results = length files
         \<and> success_count + skip_count + error_count = length files
         \<and> 0 \<le> success_count \<and> 0 \<le> skip_count \<and> 0 \<le> error_count
         \<and> success_count = length (filter is_converted results)
         \<and> skip_count = length (filter is_skipped results)
         \<and> error_count = length (filter is_failed results)"
proof -
  from assms obtain files where files: "image_files os F (fs w) = Inr files"
    unfolding process_directory_def by (auto split: sum.splits)
  from assms files have pool: "pool_fault os = None"
    unfolding process_directory_def by (auto split: option.splits)
  obtain results w1 where run: "executor_map os P files w = (results, w1)"
    by (cases "executor_map os P files w")
  from assms files pool run
  have w1: "w1 = w'" and t: "tally results (0, 0, 0) = (success_count, skip_count, error_count)"
    unfolding process_directory_def by simp_all
  have len: "length results = length files"
    using run by (rule executor_map_length)
  have s: "success_count = length (filter is_converted results)"
    and k: "skip_count = length (filter is_skipped results)"
    and e: "error_count = length (filter is_failed results)"
    using t by (simp_all add: tally_counts)
  have "success_count + skip_count + error_count = length files"
    using result_kinds [of results] len by (simp add: s k e)
  with files run w1 len s k e show ?thesis by simp
qed

theorem process_directory_tally_witness:
  "process_directory example_os PosixFlavour example_pil example_world =
     (Inr (1, 1, 1), example_world_after)
   \<and> (\<exists>files results.
         image_files example_os PosixFlavour (fs example_world) = Inr files
       \<and> executor_map example_os example_pil files example_world = (results, example_world_after)
       \<and> (1::nat) + 1 + 1 = length files
       \<and> (1::nat) = length (filter is_converted results)
       \<and> (1::nat) = length (filter is_skipped results)
       \<and> (1::nat) = length (filter is_failed results))"
  using process_directory_tally [OF example_process_directory] example_process_directory
  by blast

text \<open>
  C6. An exception raised while one file is processed becomes the result
  \<^verbatim>\<open>(False, message)\<close> of that file alone: the files before it keep their results, every
  file after it is still processed (from the state the failed attempt left), and the
  batch returns its tally, in which the failure is counted once among the failed.
\<close>

theorem per_file_failure_is_contained:
  assumes "executor_map os P before w = (rs, w1)"
    and "convert_to_webp_body os P w1 p = (Inl e, w2)"
  shows "convert_to_webp os P w1 p = (Some (False, Failed_message (name_of p) e), w2)
       \<and> (\<exists>rs' w3.
             executor_map os P rest w2 = (rs', w3)
           \<and> length rs' = length rest
           \<and> executor_map os P (before @ p # rest) w
               = (rs @ Some (False, Failed_message (name_of p) e) # rs', w3)
           \<and> (image_files os F (fs w) = Inr (before @ p # rest) \<and> pool_fault os = None \<longrightarrow>
                process_directory os F P w
                  = (Inr (length (filter is_converted rs) + length (filter is_converted rs'),
                          length (filter is_skipped rs) + length (filter is_skipped rs'),
                          length (filter is_failed rs) + 1 + length (filter is_failed rs')),
                     w3)))"
proof -
  have c: "convert_to_webp os P w1 p = (Some (False, Failed_message (name_of p) e), w2)"
    using assms(2) by (simp add: convert_to_webp_def)
  obtain rs' w3 where r: "executor_map os P rest w2 = (rs', w3)"
    by (cases "executor_map os P rest w2")
  have l: "length rs' = length rest"
    using r by (rule executor_map_length)
  have a: "executor_map os P (before @ p # rest) w
      = (rs @ Some (False, Failed_message (name_of p) e) # rs', w3)"
    by (simp add: executor_map_append assms(1) c r)
  have pd: "image_files os F (fs w) = Inr (before @ p # rest) \<and> pool_fault os = None \<longrightarrow>
      process_directory os F P w
      = (Inr (length (filter is_converted rs) + length (filter is_converted rs'),
              length (filter is_skipped rs) + length (filter is_skipped rs'),
              length (filter is_failed rs) + 1 + length (filter is_failed rs')), w3)"
    by (simp add: process_directory_def a tally_counts del: executor_map.simps)
  show ?thesis
  proof (rule conjI [OF c], rule exI [of _ rs'], rule exI [of _ w3], intro conjI)
    show "executor_map os P rest w2 = (rs', w3)" by (rule r)
    show "length rs' = length rest" by (rule l)
    show "executor_map os P (before @ p # rest) w
        = (rs @ Some (False, Failed_message (name_of p) e) # rs', w3)" by (rule a)
    show "image_files os F (fs w) = Inr (before @ p # rest) \<and> pool_fault os = None \<longrightarrow>
      process_directory os F P w
      = (Inr (length (filter is_converted rs) + length (filter is_converted rs'),
              length (filter is_skipped rs) + length (filter is_skipped rs'),
              length (filter is_failed rs) + 1 + length (filter is_failed rs')), w3)"
      by (rule pd)
  qed
qed

theorem per_file_failure_is_contained_witness:
  "convert_to_webp_body example_os example_pil example_world [''album.jpg'']
     = (Inl IsADirectoryError, example_world)
   \<and> executor_map example_os example_pil [[''album.jpg''], [''sub'', ''icon.png'']] example_world
     = ([Some (False, Failed_message ''album.jpg'' IsADirectoryError), None],
        example_world\<lparr>calls := [Save True 90]\<rparr>)"
proof -
  have b: "executor_map example_os example_pil [] example_world = ([], example_world)"
    by simp
  have f: "convert_to_webp_body example_os example_pil example_world [''album.jpg'']
      = (Inl IsADirectoryError, example_world)"
    by (simp add: convert_to_webp_body_def read_file_def example_world_def example_tree_def)
  have r: "executor_map example_os example_pil [[''sub'', ''icon.png'']] example_world
      = ([None], example_world\<lparr>calls := [Save True 90]\<rparr>)"
    by (simp add: example_convert_icon example_world_def example_tree_def)
  show ?thesis
    using per_file_failure_is_contained [OF b f, of "[[''sub'', ''icon.png'']]"] f r
    by (simp add: name_of_def)
qed

section \<open>Claims about the quality search\<close>

lemma boundary_similarity_90:
  "analyze_image_quality boundary_pil boundary_photo (take 20 boundary_photo) = 95 / 100"
  by (simp add: analyze_image_quality_def analyze_image_quality_body_def boundary_pil_def
      example_pil_def boundary_photo_def)

lemma boundary_similarity_85:
  "analyze_image_quality boundary_pil boundary_photo (take 19 boundary_photo)
     = 617737 / 650250"
  by (simp add: analyze_image_quality_def analyze_image_quality_body_def boundary_pil_def
      example_pil_def boundary_photo_def)

lemma boundary_similarity_80:
  "analyze_image_quality boundary_pil boundary_photo (take 18 boundary_photo)
     = 617737 / 650250"
  by (simp add: analyze_image_quality_def analyze_image_quality_body_def boundary_pil_def
      example_pil_def boundary_photo_def)

text \<open>
  C2. For an image whose mode is neither RGBA nor LA, and whose three encodings
  succeed, the search encodes at 90, at 85 and at 80, in that order and whatever was
  accepted before; it asks for the similarity of a level exactly when that level's
  encoding is smaller than the best size so far, which starts as the size of the
  original; a level becomes the best exactly when it is accepted (smaller, and
  similarity at least 0.95, the value 0.95 included); the candidate returned is that
  of the last accepted level, and none when no level is accepted. In particular a
  level-85 encoding accepted after level 90 replaces it.
\<close>

theorem quality_search_best_of_sequence:
  assumes "pil_open P original_data = Some img"
    and "pil_mode P img \<noteq> ''RGBA''" and "pil_mode P img \<noteq> ''LA''"
    and "pil_convert_RGB P img = Some rgb"
    and "pil_save_webp P rgb False 90 = Some e90"
    and "pil_save_webp P rgb False 85 = Some e85"
    and "pil_save_webp P rgb False 80 = Some e80"
  shows "let s0 = length original_data;
             a90 = accepted P original_data s0 e90;
             s1 = (if a90 then length e90 else s0);
             a85 = accepted P original_data s1 e85;
             s2 = (if a85 then length e85 else s1);
             a80 = accepted P original_data s2 e80
         in encode_candidate P original_data =
              (Inr (if a80 then Some e80 else if a85 then Some e85
                    else if a90 then Some e90 else None),
               [Save False 90] @ (if length e90 < s0 then [Analyze 90] else [])
               @ [Save False 85] @ (if length e85 < s1 then [Analyze 85] else [])
               @ [Save False 80] @ (if length e80 < s2 then [Analyze 80] else []))"
  using assms
  unfolding encode_candidate_def accepted_def Let_def
  by (simp add: Let_def)

theorem quality_search_best_of_sequence_witness:
  "accepted boundary_pil boundary_photo (length boundary_photo) (take 20 boundary_photo)
   \<and> analyze_image_quality boundary_pil boundary_photo (take 20 boundary_photo) = 95 / 100
   \<and> \<not> accepted boundary_pil boundary_photo 20 (take 19 boundary_photo)
   \<and> \<not> accepted boundary_pil boundary_photo 20 (take 18 boundary_photo)
   \<and> encode_candidate boundary_pil boundary_photo =
       (Inr (Some (take 20 boundary_photo)),
        [Save False 90, Analyze 90, Save False 85, Analyze 85, Save False 80, Analyze 80])"
proof -
  have o: "pil_open boundary_pil boundary_photo = Some boundary_photo"
    and m: "pil_mode boundary_pil boundary_photo \<noteq> ''RGBA''"
      "pil_mode boundary_pil boundary_photo \<noteq> ''LA''"
    and c: "pil_convert_RGB boundary_pil boundary_photo = Some boundary_photo"
    and e90: "pil_save_webp boundary_pil boundary_photo False 90 = Some (take 20 boundary_photo)"
    and e85: "pil_save_webp boundary_pil boundary_photo False 85 = Some (take 19 boundary_photo)"
    and e80: "pil_save_webp boundary_pil boundary_photo False 80 = Some (take 18 boundary_photo)"
    by (simp_all add: boundary_pil_def example_pil_def boundary_photo_def)
  have l: "length boundary_photo = 21"
    by (simp add: boundary_photo_def)
  have a90: "accepted boundary_pil boundary_photo 21 (take 20 boundary_photo)"
    by (simp add: accepted_def boundary_similarity_90 l)
  have a85: "\<not> accepted boundary_pil boundary_photo 20 (take 19 boundary_photo)"
    by (simp add: accepted_def boundary_similarity_85)
  have a80: "\<not> accepted boundary_pil boundary_photo 20 (take 18 boundary_photo)"
    by (simp add: accepted_def boundary_similarity_80)
  show ?thesis
    using quality_search_best_of_sequence [OF o m c e90 e85 e80] a90 a85 a80
      boundary_similarity_90
    by (simp add: l Let_def)
qed

text \<open>
  C3. For an image in mode RGBA or LA the conversion makes exactly one call to the
  encoder, in lossless mode, and no call to the similarity estimator; the candidate it
  gets is then compared with the original: when it is not smaller the result is
  \<^verbatim>\<open>None\<close> (skipped) and the file tree is unchanged, and when it is smaller the
  conversion goes on to replace the file.
\<close>

theorem alpha_image_lossless_candidate:
  assumes "read_file os (fs w) image_path = Inr original_data"
    and "pil_open P original_data = Some img"
    and "pil_mode P img = ''RGBA'' \<or> pil_mode P img = ''LA''"
    and "pil_getchannel_A P img"
    and "pil_save_webp P img True 90 = Some webp_data"
  shows "encode_candidate P original_data = (Inr (Some webp_data), [Save True 90])
       \<and> (length original_data \<le> length webp_data \<longrightarrow>
            convert_to_webp os P w image_path = (None, w\<lparr>calls := calls w @ [Save True 90]\<rparr>))
       \<and> (length webp_data < length original_data \<longrightarrow>
            convert_to_webp_body os P w image_path =
              (case replace_original os (fs w) image_path (length original_data) webp_data of
                 (r, tree') \<Rightarrow> (r, \<lparr>fs = tree', calls = calls w @ [Save True 90]\<rparr>)))"
proof -
  have e: "encode_candidate P original_data = (Inr (Some webp_data), [Save True 90])"
    using assms(2-5) unfolding encode_candidate_def by auto
  have b: "convert_to_webp_body os P w image_path =
      (case replace_original os (fs w) image_path (length original_data) webp_data of
         (r, tree') \<Rightarrow> (r, \<lparr>fs = tree', calls = calls w @ [Save True 90]\<rparr>))"
    unfolding convert_to_webp_body_def by (simp add: assms(1) e)
  have s: "convert_to_webp os P w image_path = (None, w\<lparr>calls := calls w @ [Save True 90]\<rparr>)"
    if "length original_data \<le> length webp_data"
    using that unfolding convert_to_webp_def b replace_original_def by simp
  show ?thesis
    using e b s by simp
qed

theorem alpha_image_lossless_candidate_witness:
  "pil_mode example_pil [1, 9, 9] = ''RGBA''
   \<and> encode_candidate example_pil [1, 9, 9] = (Inr (Some [1, 9, 9, 0]), [Save True 90])
   \<and> convert_to_webp example_os example_pil example_world [''sub'', ''icon.png'']
       = (None, example_world\<lparr>calls := [Save True 90]\<rparr>)"
proof -
  have r: "read_file example_os (fs example_world) [''sub'', ''icon.png''] = Inr [1, 9, 9]"
    by (simp add: read_file_def example_world_def example_tree_def example_os_def)
  have o: "pil_open example_pil [1, 9, 9] = Some [1, 9, 9]"
    and m: "pil_mode example_pil [1, 9, 9] = ''RGBA'' \<or> pil_mode example_pil [1, 9, 9] = ''LA''"
    and g: "pil_getchannel_A example_pil [1, 9, 9]"
    and s: "pil_save_webp example_pil [1, 9, 9] True 90 = Some [1, 9, 9, 0]"
    by (simp_all add: example_pil_def)
  have c: "calls example_world = []"
    by (simp add: example_world_def)
  show ?thesis
    using alpha_image_lossless_candidate [OF r o m g s]
    by (simp add: c) (simp add: example_pil_def)
qed

section \<open>Names, suffixes and the file tree\<close>

lemma endswith_last:
  assumes "endswith s e" and "e \<noteq> []"
  shows "s \<noteq> [] \<and> last s = last e"
proof -
  from assms have le: "length e \<le> length s" and d: "drop (length s - length e) s = e"
    by (simp_all add: endswith_def)
  from le assms(2) have s: "s \<noteq> []" by auto
  from le assms(2) have "length s - length e < length s"
    by (cases e) auto
  then have "last (drop (length s - length e) s) = last s"
    by (rule last_drop)
  with d s show ?thesis by simp
qed

lemma ascii_lower_g: "ascii_lower (CHR ''g'') = CHR ''g''"
  by (simp add: ascii_lower_def)

lemma ascii_lower_p: "ascii_lower (CHR ''p'') = CHR ''p''"
  by (simp add: ascii_lower_def)

lemma match_ext_last:
  assumes "match_ext F ext name" and "ext \<noteq> []"
  shows "name \<noteq> [] \<and> ascii_lower (last name) = ascii_lower (last ext)"
proof (cases F)
  case PosixFlavour
  with assms(1) have "endswith name ext" by (simp add: match_ext_def)
  from endswith_last [OF this assms(2)] show ?thesis by simp
next
  case WindowsFlavour
  with assms(1) have e: "endswith (map ascii_lower name) (map ascii_lower ext)"
    by (simp add: match_ext_def)
  from assms(2) have "map ascii_lower ext \<noteq> []" by simp
  from endswith_last [OF e this]
  have n: "name \<noteq> []" and l: "last (map ascii_lower name) = last (map ascii_lower ext)"
    by simp_all
  from l n assms(2) show ?thesis
    by (simp add: last_map)
qed

lemma supported_last:
  assumes "supported F name"
  shows "name \<noteq> [] \<and> ascii_lower (last name) = CHR ''g''"
proof -
  from assms obtain ext where ext: "ext \<in> set [''.jpg'', ''.jpeg'', ''.png'']"
    and m: "match_ext F ext name"
    unfolding supported_def by blast
  from ext have ne: "ext \<noteq> []" and l: "last ext = CHR ''g''"
    by auto
  from match_ext_last [OF m ne] l show ?thesis
    by (simp add: ascii_lower_g)
qed

lemma with_suffix_webp:
  assumes "with_suffix p ''.webp'' = Inr q"
  shows "p \<noteq> [] \<and> length q = length p \<and> butlast q = butlast p \<and> q \<noteq> []
       \<and> name_of q \<noteq> [] \<and> last (name_of q) = CHR ''p''"
proof -
  from assms have n: "name_of p \<noteq> []"
    unfolding with_suffix_def Let_def by (auto split: if_splits)
  then have p: "p \<noteq> []"
    by (auto simp: name_of_def)
  from assms n obtain stem where q: "q = butlast p @ [stem @ ''.webp'']"
    unfolding with_suffix_def Let_def by (auto split: if_splits)
  from p have "length (butlast p) + 1 = length p"
    by (cases p rule: rev_cases) simp_all
  with q p show ?thesis
    by (simp add: name_of_def)
qed


lemma webp_name_not_supported:
  assumes "with_suffix p ''.webp'' = Inr q"
  shows "\<not> supported F (name_of q)"
proof
  assume "supported F (name_of q)"
  from supported_last [OF this] with_suffix_webp [OF assms]
  have "ascii_lower (CHR ''p'') = CHR ''g''" by simp
  then show False by (simp add: ascii_lower_p)
qed












lemma entry_at_Directory: "entry_at t p = Directory \<longleftrightarrow> (\<exists>ks. lookup t p = Some (Dir ks))"
  by (simp add: entry_at_def split: option.splits node.splits)

lemma lookup_below_file:
  "lookup n p = Some (File b) \<Longrightarrow> qs \<noteq> [] \<Longrightarrow> lookup n (p @ qs) = None"
proof (induction n p rule: lookup.induct)
  case (1 n)
  then show ?case by (cases qs) simp_all
next
  case (2 b c cs)
  then show ?case by simp
next
  case (3 kids c cs)
  then show ?case by (simp split: option.splits)
qed

lemma lookup_below_absent:
  "lookup n p = None \<Longrightarrow> lookup n (p @ qs) = None"
proof (induction n p rule: lookup.induct)
  case (1 n)
  then show ?case by simp
next
  case (2 b c cs)
  then show ?case by simp
next
  case (3 kids c cs)
  then show ?case by (simp split: option.splits)
qed









section \<open>What the enumeration yields\<close>

lemma sequence_member:
  "sequence rs = Inr xs \<Longrightarrow> x \<in> set xs \<longleftrightarrow> (\<exists>ys. Inr ys \<in> set rs \<and> x \<in> set ys)"
proof (induction rs arbitrary: xs rule: sequence.induct)
  case 1
  then show ?case by simp
next
  case (2 e rs)
  then show ?case by simp
next
  case (3 zs rs)
  from "3.prems" obtain ys where ys: "sequence rs = Inr ys" and xs: "xs = zs @ ys"
    by (auto split: sum.splits)
  from "3.IH" [OF ys] show ?case
    by (auto simp: xs)
qed

lemma sequence_all_Inr:
  "sequence rs = Inr xs \<Longrightarrow> r \<in> set rs \<Longrightarrow> \<exists>ys. r = Inr ys"
proof (induction rs arbitrary: xs rule: sequence.induct)
  case 1
  then show ?case by simp
next
  case (2 e rs)
  then show ?case by simp
next
  case (3 zs rs)
  from "3.prems"(1) obtain ys where ys: "sequence rs = Inr ys"
    by (auto split: sum.splits)
  from "3.IH" [OF ys] "3.prems"(2) show ?case
    by auto
qed

lemma rglob_walk_Dir_children:
  assumes "scandir_fault os d = None"
    and "rglob_walk os F ext d (Dir kids) = Inr ps"
    and "(c, k) \<in> set kids"
  shows "\<exists>ys. rglob_walk os F ext (d @ [c]) k = Inr ys"
proof -
  from assms(1,2) obtain below
    where "sequence (map (\<lambda>(name, n). rglob_walk os F ext (d @ [name]) n) kids) = Inr below"
    by (auto split: sum.splits)
  from sequence_all_Inr [OF this, of "rglob_walk os F ext (d @ [c]) k"] assms(3)
  show ?thesis by force
qed

lemma rglob_walk_Dir_member:
  assumes "scandir_fault os d = None"
    and "rglob_walk os F ext d (Dir kids) = Inr ps"
  shows "q \<in> set ps \<longleftrightarrow>
         (\<exists>c k. (c, k) \<in> set kids
            \<and> (match_ext F ext c \<and> q = d @ [c]
               \<or> (\<exists>ys. rglob_walk os F ext (d @ [c]) k = Inr ys \<and> q \<in> set ys)))"
proof -
  from assms obtain below
    where seq: "sequence (map (\<lambda>(name, n). rglob_walk os F ext (d @ [name]) n) kids) = Inr below"
      and ps: "ps = map (\<lambda>(name, n). d @ [name])
                      (filter (\<lambda>(name, n). match_ext F ext name) kids) @ below"
    by (auto split: sum.splits)
  have m: "q \<in> set (map (\<lambda>(name, n). d @ [name])
                      (filter (\<lambda>(name, n). match_ext F ext name) kids))
           \<longleftrightarrow> (\<exists>c k. (c, k) \<in> set kids \<and> match_ext F ext c \<and> q = d @ [c])"
    by force
  have b: "q \<in> set below
           \<longleftrightarrow> (\<exists>c k. (c, k) \<in> set kids
                  \<and> (\<exists>ys. rglob_walk os F ext (d @ [c]) k = Inr ys \<and> q \<in> set ys))"
    unfolding sequence_member [OF seq] by force
  show ?thesis
    unfolding ps set_append Un_iff m b by blast
qed

lemma rglob_walk_names:
  "rglob_walk os F ext d n = Inr ps \<Longrightarrow> q \<in> set ps \<Longrightarrow> q \<noteq> [] \<and> match_ext F ext (last q)"
proof (induction os F ext d n arbitrary: ps q rule: rglob_walk.induct)
  case (1 os F ext d b)
  then show ?case by simp
next
  case (2 os F ext d kids)
  show ?case
  proof (cases "scandir_fault os d")
    case (Some e)
    with "2.prems" show ?thesis
      by (auto split: if_splits)
  next
    case None
    from "2.prems"(2) rglob_walk_Dir_member [OF None "2.prems"(1), of q]
    obtain c k where ck: "(c, k) \<in> set kids"
      and alt: "match_ext F ext c \<and> q = d @ [c]
                \<or> (\<exists>ys. rglob_walk os F ext (d @ [c]) k = Inr ys \<and> q \<in> set ys)"
      by blast
    from alt show ?thesis
    proof
      assume "match_ext F ext c \<and> q = d @ [c]"
      then show ?thesis by simp
    next
      assume "\<exists>ys. rglob_walk os F ext (d @ [c]) k = Inr ys \<and> q \<in> set ys"
      then obtain ys where ys: "rglob_walk os F ext (d @ [c]) k = Inr ys" and q: "q \<in> set ys"
        by blast
      from "2.IH" [OF None ck refl ys q] show ?thesis .
    qed
  qed
qed

text \<open>
  In a tree whose directories list each name once, the paths a walk yields are the
  entries below the start, reached through directories that can be listed, whose name
  matches.
\<close>

lemma rglob_walk_member:
  assumes "distinct_names n" and "rglob_walk os F ext d n = Inr ps"
  shows "q \<in> set ps \<longleftrightarrow>
         (\<exists>r. q = d @ r \<and> r \<noteq> [] \<and> lookup n r \<noteq> None
            \<and> (\<forall>j < length r. scandir_fault os (d @ take j r) = None)
            \<and> match_ext F ext (last r))"
  using assms
proof (induction os F ext d n arbitrary: ps q rule: rglob_walk.induct)
  case (1 os F ext d b)
  have "lookup (File b) r = None" if "r \<noteq> []" for r
    using that by (cases r) simp_all
  with "1.prems" show ?case by auto
next
  case (2 os F ext d kids)
  show ?case
  proof (cases "scandir_fault os d")
    case (Some e)
    with "2.prems"(2) have ps: "ps = []"
      by (auto split: if_splits)
    have "\<not> (\<forall>j < length r. scandir_fault os (d @ take j r) = None)" if "r \<noteq> []" for r
    proof
      assume a: "\<forall>j < length r. scandir_fault os (d @ take j r) = None"
      from that have "0 < length r" by simp
      with a have "scandir_fault os (d @ take 0 r) = None" by blast
      with Some show False by simp
    qed
    with ps show ?thesis by auto
  next
    case None
    from "2.prems"(1) have dk: "distinct (map fst kids)"
      and dn: "\<And>c k. (c, k) \<in> set kids \<Longrightarrow> distinct_names k"
      by auto
    note mem = rglob_walk_Dir_member [OF None "2.prems"(2), of q]
    have look: "map_of kids c = Some k \<longleftrightarrow> (c, k) \<in> set kids" for c k
      using dk by (rule map_of_eq_Some_iff)
    show ?thesis
    proof
      assume "q \<in> set ps"
      with mem obtain c k where ck: "(c, k) \<in> set kids"
        and alt: "match_ext F ext c \<and> q = d @ [c]
                  \<or> (\<exists>ys. rglob_walk os F ext (d @ [c]) k = Inr ys \<and> q \<in> set ys)"
        by blast
      from ck have mk: "map_of kids c = Some k"
        by (simp add: look)
      from alt show "\<exists>r. q = d @ r \<and> r \<noteq> [] \<and> lookup (Dir kids) r \<noteq> None
            \<and> (\<forall>j < length r. scandir_fault os (d @ take j r) = None)
            \<and> match_ext F ext (last r)"
      proof
        assume a: "match_ext F ext c \<and> q = d @ [c]"
        have "q = d @ [c] \<and> [c] \<noteq> [] \<and> lookup (Dir kids) [c] \<noteq> None
            \<and> (\<forall>j < length [c]. scandir_fault os (d @ take j [c]) = None)
            \<and> match_ext F ext (last [c])"
          using a mk None by simp
        then show ?thesis by blast
      next
        assume "\<exists>ys. rglob_walk os F ext (d @ [c]) k = Inr ys \<and> q \<in> set ys"
        then obtain ys where ys: "rglob_walk os F ext (d @ [c]) k = Inr ys"
          and q: "q \<in> set ys"
          by blast
        from "2.IH" [OF None ck refl dn [OF ck] ys, of q] q
        obtain r where r: "q = (d @ [c]) @ r" "r \<noteq> []" "lookup k r \<noteq> None"
          "\<forall>j < length r. scandir_fault os ((d @ [c]) @ take j r) = None"
          "match_ext F ext (last r)"
          by blast
        have f: "scandir_fault os (d @ take j (c # r)) = None" if "j < length (c # r)" for j
        proof (cases j)
          case 0
          with None show ?thesis by simp
        next
          case (Suc i)
          with that have "i < length r" by simp
          with r(4) have "scandir_fault os ((d @ [c]) @ take i r) = None" by blast
          then show ?thesis by (simp add: Suc)
        qed
        have "q = d @ (c # r) \<and> c # r \<noteq> [] \<and> lookup (Dir kids) (c # r) \<noteq> None
            \<and> (\<forall>j < length (c # r). scandir_fault os (d @ take j (c # r)) = None)
            \<and> match_ext F ext (last (c # r))"
          using r(1,2,3,5) mk f by simp
        then show ?thesis by blast
      qed
    next
      assume "\<exists>r. q = d @ r \<and> r \<noteq> [] \<and> lookup (Dir kids) r \<noteq> None
            \<and> (\<forall>j < length r. scandir_fault os (d @ take j r) = None)
            \<and> match_ext F ext (last r)"
      then obtain r where r: "q = d @ r" "r \<noteq> []" "lookup (Dir kids) r \<noteq> None"
        "\<forall>j < length r. scandir_fault os (d @ take j r) = None"
        "match_ext F ext (last r)"
        by blast
      from r(2) obtain c cs where ccs: "r = c # cs"
        by (cases r) auto
      from r(3) obtain k where mk: "map_of kids c = Some k" and lk: "lookup k cs \<noteq> None"
        by (auto simp: ccs split: option.splits)
      from mk have ck: "(c, k) \<in> set kids"
        by (simp add: look)
      show "q \<in> set ps"
      proof (cases cs)
        case Nil
        with r(1,5) ccs have "match_ext F ext c \<and> q = d @ [c]" by simp
        with ck mem show ?thesis by blast
      next
        case (Cons c2 cs2)
        from rglob_walk_Dir_children [OF None "2.prems"(2) ck]
        obtain ys where ys: "rglob_walk os F ext (d @ [c]) k = Inr ys"
          by blast
        have f: "scandir_fault os ((d @ [c]) @ take j cs) = None" if "j < length cs" for j
        proof -
          from that have "Suc j < length r" by (simp add: ccs)
          with r(4) have "scandir_fault os (d @ take (Suc j) r) = None" by blast
          then show ?thesis by (simp add: ccs)
        qed
        have "q = (d @ [c]) @ cs \<and> cs \<noteq> [] \<and> lookup k cs \<noteq> None
            \<and> (\<forall>j < length cs. scandir_fault os ((d @ [c]) @ take j cs) = None)
            \<and> match_ext F ext (last cs)"
          using r(1,5) ccs Cons lk f by simp
        then have "q \<in> set ys"
          using "2.IH" [OF None ck refl dn [OF ck] ys, of q] by blast
        with ck ys mem show ?thesis by blast
      qed
    qed
  qed
qed

lemma set_dedup: "set (dedup yielded ps) = set ps - set yielded"
  by (induction yielded ps rule: dedup.induct) auto

lemma wildcard_select_names:
  "wildcard_select os F ext d n = Inr ys \<Longrightarrow> q \<in> set ys \<Longrightarrow>
     q \<noteq> [] \<and> match_ext F ext (last q)"
  by (cases n) (auto split: option.splits if_splits)

lemma walk_select_names:
  "Inr ys \<in> set (walk_select os F ext d n) \<Longrightarrow> q \<in> set ys \<Longrightarrow>
     q \<noteq> [] \<and> match_ext F ext (last q)"
proof (induction os F ext d n arbitrary: ys q rule: walk_select.induct)
  case (1 os F ext d b)
  then show ?case by simp
next
  case (2 os F ext d kids)
  show ?case
  proof (cases "scandir_fault os d")
    case (Some e)
    with "2.prems" show ?thesis
      by (auto split: if_splits)
  next
    case None
    with "2.prems"(1) obtain c k
      where ck: "(c, k) \<in> set (filter (\<lambda>(name, n). is_dir n) kids)"
        and alt: "wildcard_select os F ext (d @ [c]) k = Inr ys
                  \<or> Inr ys \<in> set (walk_select os F ext (d @ [c]) k)"
      by auto
    from alt show ?thesis
    proof
      assume "wildcard_select os F ext (d @ [c]) k = Inr ys"
      from wildcard_select_names [OF this "2.prems"(2)] show ?thesis .
    next
      assume "Inr ys \<in> set (walk_select os F ext (d @ [c]) k)"
      from "2.IH" [OF None ck refl this "2.prems"(2)] show ?thesis .
    qed
  qed
qed

lemma wildcard_select_member:
  "(\<exists>ys. wildcard_select os F ext d n = Inr ys \<and> q \<in> set ys) \<longleftrightarrow>
   (\<exists>c. q = d @ [c] \<and> lookup n [c] \<noteq> None \<and> scandir_fault os d = None
      \<and> match_ext F ext c)"
proof (cases n)
  case (File b)
  then show ?thesis by simp
next
  case (Dir kids)
  have l: "lookup (Dir kids) [c] \<noteq> None \<longleftrightarrow> c \<in> fst ` set kids" for c
  proof -
    have "lookup (Dir kids) [c] \<noteq> None \<longleftrightarrow> map_of kids c \<noteq> None"
      by (cases "map_of kids c") simp_all
    then show ?thesis
      by (simp add: map_of_eq_None_iff)
  qed
  show ?thesis
  proof (cases "scandir_fault os d")
    case (Some e)
    then show ?thesis by (simp add: Dir)
  next
    case None
    have "q \<in> set (map (\<lambda>(name, n). d @ [name])
                      (filter (\<lambda>(name, n). match_ext F ext name) kids))
          \<longleftrightarrow> (\<exists>c. q = d @ [c] \<and> c \<in> fst ` set kids \<and> match_ext F ext c)"
      by force
    then have "(\<exists>ys. wildcard_select os F ext d (Dir kids) = Inr ys \<and> q \<in> set ys)
          \<longleftrightarrow> (\<exists>c. q = d @ [c] \<and> c \<in> fst ` set kids \<and> match_ext F ext c)"
      by (simp add: None)
    then show ?thesis
      unfolding Dir l [symmetric] by (simp add: None)
  qed
qed

text \<open>
  The same characterisation for the walk of CPython 3.12, starting point included.
\<close>

lemma walk_select_member:
  assumes "distinct_names n"
  shows "(\<exists>ys. Inr ys \<in> set (wildcard_select os F ext d n # walk_select os F ext d n)
            \<and> q \<in> set ys) \<longleftrightarrow>
         (\<exists>r. q = d @ r \<and> r \<noteq> [] \<and> lookup n r \<noteq> None
            \<and> (\<forall>j < length r. scandir_fault os (d @ take j r) = None)
            \<and> match_ext F ext (last r))"
  using assms
proof (induction os F ext d n arbitrary: q rule: walk_select.induct)
  case (1 os F ext d b)
  have "lookup (File b) r = None" if "r \<noteq> []" for r
    using that by (cases r) simp_all
  then show ?case by auto
next
  case (2 os F ext d kids)
  show ?case
  proof (cases "scandir_fault os d")
    case (Some e)
    have "\<not> (\<forall>j < length r. scandir_fault os (d @ take j r) = None)" if "r \<noteq> []" for r
    proof
      assume a: "\<forall>j < length r. scandir_fault os (d @ take j r) = None"
      from that have "0 < length r" by simp
      with a have "scandir_fault os (d @ take 0 r) = None" by blast
      with Some show False by simp
    qed
    with Some show ?thesis by auto
  next
    case None
    from "2.prems" have dk: "distinct (map fst kids)"
      and dn: "\<And>c k. (c, k) \<in> set kids \<Longrightarrow> distinct_names k"
      by auto
    have look: "map_of kids c = Some k \<longleftrightarrow> (c, k) \<in> set kids" for c k
      using dk by (rule map_of_eq_Some_iff)
    let ?dirs = "filter (\<lambda>(name, n). is_dir n) kids"
    have below: "(\<exists>ys. Inr ys \<in> set (walk_select os F ext d (Dir kids)) \<and> q \<in> set ys) \<longleftrightarrow>
        (\<exists>c k. (c, k) \<in> set ?dirs
           \<and> (\<exists>ys. Inr ys \<in> set (wildcard_select os F ext (d @ [c]) k
                                    # walk_select os F ext (d @ [c]) k) \<and> q \<in> set ys))"
      using None by force
    have ih: "(\<exists>ys. Inr ys \<in> set (wildcard_select os F ext (d @ [c]) k
                                    # walk_select os F ext (d @ [c]) k) \<and> q \<in> set ys)
        \<longleftrightarrow> (\<exists>r. q = (d @ [c]) @ r \<and> r \<noteq> [] \<and> lookup k r \<noteq> None
            \<and> (\<forall>j < length r. scandir_fault os ((d @ [c]) @ take j r) = None)
            \<and> match_ext F ext (last r))"
      if "(c, k) \<in> set ?dirs" for c k
    proof -
      from that have "(c, k) \<in> set kids" by simp
      from "2.IH" [OF None that refl dn [OF this]] show ?thesis .
    qed
    have here: "(\<exists>ys. wildcard_select os F ext d (Dir kids) = Inr ys \<and> q \<in> set ys) \<longleftrightarrow>
        (\<exists>c. q = d @ [c] \<and> lookup (Dir kids) [c] \<noteq> None \<and> match_ext F ext c)"
      using wildcard_select_member [of os F ext d "Dir kids" q] None by simp
    show ?thesis
    proof
      assume "\<exists>ys. Inr ys \<in> set (wildcard_select os F ext d (Dir kids)
                                  # walk_select os F ext d (Dir kids)) \<and> q \<in> set ys"
      then obtain ys
        where "Inr ys \<in> set (wildcard_select os F ext d (Dir kids)
                              # walk_select os F ext d (Dir kids))"
          and "q \<in> set ys"
        by blast
      then have "(wildcard_select os F ext d (Dir kids) = Inr ys \<and> q \<in> set ys)
          \<or> (Inr ys \<in> set (walk_select os F ext d (Dir kids)) \<and> q \<in> set ys)"
        by (auto simp del: wildcard_select.simps walk_select.simps)
      then consider
          (top) "\<exists>ys. wildcard_select os F ext d (Dir kids) = Inr ys \<and> q \<in> set ys"
        | (sub) "\<exists>ys. Inr ys \<in> set (walk_select os F ext d (Dir kids)) \<and> q \<in> set ys"
        by blast
      then show "\<exists>r. q = d @ r \<and> r \<noteq> [] \<and> lookup (Dir kids) r \<noteq> None
            \<and> (\<forall>j < length r. scandir_fault os (d @ take j r) = None)
            \<and> match_ext F ext (last r)"
      proof cases
        case top
        with here obtain c where c: "q = d @ [c]" "lookup (Dir kids) [c] \<noteq> None"
          "match_ext F ext c"
          by blast
        have "q = d @ [c] \<and> [c] \<noteq> [] \<and> lookup (Dir kids) [c] \<noteq> None
            \<and> (\<forall>j < length [c]. scandir_fault os (d @ take j [c]) = None)
            \<and> match_ext F ext (last [c])"
          using c None by simp
        then show ?thesis by blast
      next
        case sub
        with below obtain c k where ck: "(c, k) \<in> set ?dirs"
          and ev: "\<exists>ys. Inr ys \<in> set (wildcard_select os F ext (d @ [c]) k
                                    # walk_select os F ext (d @ [c]) k) \<and> q \<in> set ys"
          by blast
        from ck have mk: "map_of kids c = Some k"
          by (simp add: look)
        from ev ih [OF ck]
        obtain r where r: "q = (d @ [c]) @ r" "r \<noteq> []" "lookup k r \<noteq> None"
          "\<forall>j < length r. scandir_fault os ((d @ [c]) @ take j r) = None"
          "match_ext F ext (last r)"
          by blast
        have f: "scandir_fault os (d @ take j (c # r)) = None" if "j < length (c # r)" for j
        proof (cases j)
          case 0
          with None show ?thesis by simp
        next
          case (Suc i)
          with that have "i < length r" by simp
          with r(4) have "scandir_fault os ((d @ [c]) @ take i r) = None" by blast
          then show ?thesis by (simp add: Suc)
        qed
        have "q = d @ (c # r) \<and> c # r \<noteq> [] \<and> lookup (Dir kids) (c # r) \<noteq> None
            \<and> (\<forall>j < length (c # r). scandir_fault os (d @ take j (c # r)) = None)
            \<and> match_ext F ext (last (c # r))"
          using r(1,2,3,5) mk f by simp
        then show ?thesis by blast
      qed
    next
      assume "\<exists>r. q = d @ r \<and> r \<noteq> [] \<and> lookup (Dir kids) r \<noteq> None
            \<and> (\<forall>j < length r. scandir_fault os (d @ take j r) = None)
            \<and> match_ext F ext (last r)"
      then obtain r where r: "q = d @ r" "r \<noteq> []" "lookup (Dir kids) r \<noteq> None"
        "\<forall>j < length r. scandir_fault os (d @ take j r) = None"
        "match_ext F ext (last r)"
        by blast
      from r(2) obtain c cs where ccs: "r = c # cs"
        by (cases r) auto
      from r(3) obtain k where mk: "map_of kids c = Some k" and lk: "lookup k cs \<noteq> None"
        by (auto simp: ccs split: option.splits)
      from mk have ck: "(c, k) \<in> set kids"
        by (simp add: look)
      show "\<exists>ys. Inr ys \<in> set (wildcard_select os F ext d (Dir kids)
                                  # walk_select os F ext d (Dir kids)) \<and> q \<in> set ys"
      proof (cases cs)
        case Nil
        with r(1,3,5) ccs have "q = d @ [c] \<and> lookup (Dir kids) [c] \<noteq> None \<and> match_ext F ext c"
          by simp
        with here obtain ys where "wildcard_select os F ext d (Dir kids) = Inr ys \<and> q \<in> set ys"
          by blast
        then have "Inr ys \<in> set (wildcard_select os F ext d (Dir kids)
                              # walk_select os F ext d (Dir kids)) \<and> q \<in> set ys"
          by (simp del: wildcard_select.simps walk_select.simps)
        then show ?thesis by blast
      next
        case (Cons c2 cs2)
        with lk have "is_dir k"
          by (cases k) simp_all
        with ck have cd: "(c, k) \<in> set ?dirs"
          by simp
        have f: "scandir_fault os ((d @ [c]) @ take j cs) = None" if "j < length cs" for j
        proof -
          from that have "Suc j < length r" by (simp add: ccs)
          with r(4) have "scandir_fault os (d @ take (Suc j) r) = None" by blast
          then show ?thesis by (simp add: ccs)
        qed
        have "q = (d @ [c]) @ cs \<and> cs \<noteq> [] \<and> lookup k cs \<noteq> None
            \<and> (\<forall>j < length cs. scandir_fault os ((d @ [c]) @ take j cs) = None)
            \<and> match_ext F ext (last cs)"
          using r(1,5) ccs Cons lk f by simp
        then have "\<exists>ys. Inr ys \<in> set (wildcard_select os F ext (d @ [c]) k
                                    # walk_select os F ext (d @ [c]) k) \<and> q \<in> set ys"
          using ih [OF cd] by blast
        with cd below obtain ys
          where "Inr ys \<in> set (walk_select os F ext d (Dir kids)) \<and> q \<in> set ys"
          by blast
        then have "Inr ys \<in> set (wildcard_select os F ext d (Dir kids)
                              # walk_select os F ext d (Dir kids)) \<and> q \<in> set ys"
          by (simp del: wildcard_select.simps walk_select.simps)
        then show ?thesis by blast
      qed
    qed
  qed
qed

lemma rglob_names:
  assumes "rglob os F tree ext = Inr ps" and "q \<in> set ps"
  shows "q \<noteq> [] \<and> match_ext F ext (last q)"
proof (cases "interpreter os")
  case CPython_3_11
  with assms(1) obtain qs where qs: "rglob_walk os F ext [] tree = Inr qs"
    and ps: "ps = dedup [] qs"
    by (auto simp: rglob_def split: sum.splits)
  from assms(2) have "q \<in> set qs"
    by (simp add: ps set_dedup)
  with qs show ?thesis
    by (rule rglob_walk_names)
next
  case CPython_3_12
  show ?thesis
  proof (cases "is_dir tree")
    case False
    with assms CPython_3_12 show ?thesis
      by (simp add: rglob_def)
  next
    case True
    with assms(1) CPython_3_12
    have "sequence (wildcard_select os F ext [] tree # walk_select os F ext [] tree) = Inr ps"
      by (simp add: rglob_def)
    from sequence_member [OF this, of q] assms(2) obtain ys
      where "Inr ys \<in> set (wildcard_select os F ext [] tree # walk_select os F ext [] tree)"
        and q: "q \<in> set ys"
      by blast
    then have "wildcard_select os F ext [] tree = Inr ys
        \<or> Inr ys \<in> set (walk_select os F ext [] tree)"
      by (auto simp del: wildcard_select.simps walk_select.simps)
    then show ?thesis
    proof
      assume "wildcard_select os F ext [] tree = Inr ys"
      from wildcard_select_names [OF this q] show ?thesis .
    next
      assume "Inr ys \<in> set (walk_select os F ext [] tree)"
      from walk_select_names [OF this q] show ?thesis .
    qed
  qed
qed

text \<open>
  On both releases, in a tree whose directories list each name once, \<^verbatim>\<open>rglob\<close> yields
  the entries below the start directory that are reached through directories that can
  be listed and whose name matches.
\<close>

lemma rglob_member:
  assumes "distinct_names tree" and "rglob os F tree ext = Inr ps"
  shows "p \<in> set ps \<longleftrightarrow>
         p \<noteq> [] \<and> lookup tree p \<noteq> None
         \<and> (\<forall>j < length p. scandir_fault os (take j p) = None)
         \<and> match_ext F ext (name_of p)"
proof (cases "interpreter os")
  case CPython_3_11
  with assms(2) obtain qs where qs: "rglob_walk os F ext [] tree = Inr qs"
    and ps: "ps = dedup [] qs"
    by (auto simp: rglob_def split: sum.splits)
  have "p \<in> set ps \<longleftrightarrow> p \<in> set qs"
    by (simp add: ps set_dedup)
  with rglob_walk_member [OF assms(1) qs, of p] show ?thesis
    by (auto simp: name_of_def)
next
  case CPython_3_12
  show ?thesis
  proof (cases tree)
    case (File b)
    have "lookup (File b) p = None" if "p \<noteq> []"
      using that by (cases p) simp_all
    with assms(2) CPython_3_12 File show ?thesis
      by (auto simp: rglob_def)
  next
    case (Dir kids)
    with assms(2) CPython_3_12
    have "sequence (wildcard_select os F ext [] tree # walk_select os F ext [] tree) = Inr ps"
      by (simp add: rglob_def)
    from sequence_member [OF this, of p] walk_select_member [OF assms(1), of os F ext "[]" p]
    show ?thesis
      by (auto simp: name_of_def)
  qed
qed

lemma image_files_set:
  assumes "image_files os F tree = Inr files"
  shows "\<exists>a b c. rglob os F tree ''.jpg'' = Inr a
          \<and> rglob os F tree ''.jpeg'' = Inr b
          \<and> rglob os F tree ''.png'' = Inr c
          \<and> files = a @ b @ c"
  using assms unfolding image_files_def
  by (cases "rglob os F tree ''.jpg''"; cases "rglob os F tree ''.jpeg''";
      cases "rglob os F tree ''.png''") auto

lemma image_files_supported:
  assumes "image_files os F tree = Inr files" and "p \<in> set files"
  shows "p \<noteq> [] \<and> supported F (name_of p)"
proof -
  from image_files_set [OF assms(1)] obtain a b c
    where a: "rglob os F tree ''.jpg'' = Inr a"
      and b: "rglob os F tree ''.jpeg'' = Inr b"
      and c: "rglob os F tree ''.png'' = Inr c"
      and f: "files = a @ b @ c"
    by blast
  from assms(2) f consider "p \<in> set a" | "p \<in> set b" | "p \<in> set c"
    by auto
  then show ?thesis
  proof cases
    case 1
    from rglob_names [OF a 1] show ?thesis
      by (auto simp: supported_def name_of_def)
  next
    case 2
    from rglob_names [OF b 2] show ?thesis
      by (auto simp: supported_def name_of_def)
  next
    case 3
    from rglob_names [OF c 3] show ?thesis
      by (auto simp: supported_def name_of_def)
  qed
qed

lemma yields_simps:
  "yields [] = []"
  "yields (Inr ys # rs) = ys @ yields rs"
  "yields (Inl e # rs) = yields rs"
  "yields (rs @ rs') = yields rs @ yields rs'"
  by (simp_all add: yields_def)

lemma yields_concat: "yields (concat rss) = concat (map yields rss)"
  by (induction rss) (simp_all add: yields_simps)











section \<open>Claims about the replacement of the original\<close>










section \<open>Claims about the enumeration\<close>

lemma executor_map_nth:
  "executor_map os P ps w = (rs, w') \<Longrightarrow> i < length ps \<Longrightarrow>
     \<exists>wi wi'. convert_to_webp os P wi (ps ! i) = (rs ! i, wi')"
proof (induction ps arbitrary: w rs w' i)
  case Nil
  then show ?case by simp
next
  case (Cons p ps)
  obtain r w1 where c: "convert_to_webp os P w p = (r, w1)"
    by (cases "convert_to_webp os P w p")
  obtain rs1 w2 where m: "executor_map os P ps w1 = (rs1, w2)"
    by (cases "executor_map os P ps w1")
  from Cons.prems(1) c m have rs: "rs = r # rs1"
    by simp
  show ?case
  proof (cases i)
    case 0
    with c rs show ?thesis by auto
  next
    case (Suc j)
    with Cons.prems(2) have "j < length ps" by simp
    from Cons.IH [OF m this] show ?thesis
      by (simp add: rs Suc)
  qed
qed

lemma converted_sibling:
  assumes "convert_to_webp os P w p = (r, w')" and "is_converted r"
  shows "\<exists>wp. with_suffix p ''.webp'' = Inr wp"
proof (cases "with_suffix p ''.webp''")
  case (Inr wp)
  then show ?thesis by blast
next
  case (Inl e)
  have rep: "replace_original os t p n d = (if n \<le> length d then (Inr None, t) else (Inl e, t))"
    for t n d
    by (simp add: replace_original_def Let_def Inl)
  from assms show ?thesis
    by (auto simp: convert_to_webp_def convert_to_webp_body_def rep
        split: sum.splits option.splits prod.splits if_splits)
qed

lemma example_second_enumeration:
  "image_files example_os PosixFlavour (fs example_world_after) =
     Inr [[''album.jpg''], [''sub'', ''icon.png'']]"
  by (simp add: image_files_def rglob_def example_world_after_def example_os_def match_ext_def
      endswith_def)

text \<open>
  C7. A file that a run converted is not enumerated by a later run over the tree the
  first run left: its new path carries the suffix \<^verbatim>\<open>.webp\<close>, which none of the three
  patterns matches, so the later run never calls the conversion on it and it adds
  nothing to that run's converted count.
\<close>

theorem converted_file_not_enumerated_again:
  assumes "executor_map os P files w = (results, w1)"
    and "i < length files"
    and "is_converted (results ! i)"
    and "image_files os2 F (fs w1) = Inr files2"
  shows "\<exists>webp_path. with_suffix (files ! i) ''.webp'' = Inr webp_path
           \<and> \<not> supported F (name_of webp_path)
           \<and> webp_path \<notin> set files2"
proof -
  from executor_map_nth [OF assms(1,2)] obtain wi wi'
    where c: "convert_to_webp os P wi (files ! i) = (results ! i, wi')"
    by blast
  from converted_sibling [OF c assms(3)] obtain wp
    where wp: "with_suffix (files ! i) ''.webp'' = Inr wp"
    by blast
  have n: "\<not> supported F (name_of wp)"
    using wp by (rule webp_name_not_supported)
  have "wp \<notin> set files2"
    using image_files_supported [OF assms(4), of wp] n by blast
  with wp n show ?thesis by blast
qed

theorem converted_file_not_enumerated_again_witness:
  "is_converted ([Some (True, Converted_message ''photo.jpg'' 8 4),
                  Some (False, Failed_message ''album.jpg'' IsADirectoryError), None] ! 0)
   \<and> with_suffix ([[''photo.jpg''], [''album.jpg''], [''sub'', ''icon.png'']] ! 0) ''.webp''
       = Inr [''photo.webp'']
   \<and> image_files example_os PosixFlavour (fs example_world_after)
       = Inr [[''album.jpg''], [''sub'', ''icon.png'']]
   \<and> [''photo.webp''] \<notin> set [[''album.jpg''], [''sub'', ''icon.png'']]"
proof -
  have i: "0 < length [[''photo.jpg''], [''album.jpg''], [''sub'', ''icon.png'']]"
    by simp
  have k: "is_converted ([Some (True, Converted_message ''photo.jpg'' 8 4),
                  Some (False, Failed_message ''album.jpg'' IsADirectoryError), None] ! 0)"
    by simp
  have ws: "with_suffix ([[''photo.jpg''], [''album.jpg''], [''sub'', ''icon.png'']] ! 0) ''.webp''
       = Inr [''photo.webp'']"
    by (simp add: with_suffix_def name_of_def suffix_of_def)
  from converted_file_not_enumerated_again
    [OF example_executor_map i k example_second_enumeration]
  obtain wp where wp: "with_suffix ([[''photo.jpg''], [''album.jpg''], [''sub'', ''icon.png'']] ! 0)
        ''.webp'' = Inr wp"
    and n: "wp \<notin> set [[''album.jpg''], [''sub'', ''icon.png'']]"
    by blast
  from wp ws have "wp = [''photo.webp'']"
    by simp
  with n k ws example_second_enumeration show ?thesis
    by simp
qed

text \<open>
  C8, as the code has it. The file list holds exactly the entries of any kind, regular
  files and directories alike, that lie below the start directory, are reached through
  directories that can be listed, and whose name ends with \<^verbatim>\<open>.jpg\<close>, \<^verbatim>\<open>.jpeg\<close> or
  \<^verbatim>\<open>.png\<close> (compared as the flavour says: exactly on POSIX, ignoring case on
  Windows); and the batch processes that list, computed once from the tree as it was
  before any file was processed.
\<close>

theorem enumeration_characterised:
  assumes "distinct_names (fs w)"
    and "image_files os F (fs w) = Inr files"
  shows "(\<forall>p. p \<in> set files \<longleftrightarrow>
            p \<noteq> [] \<and> lookup (fs w) p \<noteq> None
            \<and> (\<forall>j < length p. scandir_fault os (take j p) = None)
            \<and> supported F (name_of p))
       \<and> process_directory os F P w =
           (case pool_fault os of
              Some e \<Rightarrow> (Inl e, w)
            | None \<Rightarrow>
                (case executor_map os P files w of
                   (results, w') \<Rightarrow> (Inr (tally results (0, 0, 0)), w')))"
proof
  from image_files_set [OF assms(2)] obtain a b c
    where a: "rglob os F (fs w) ''.jpg'' = Inr a"
      and b: "rglob os F (fs w) ''.jpeg'' = Inr b"
      and c: "rglob os F (fs w) ''.png'' = Inr c"
      and f: "files = a @ b @ c"
    by blast
  have s: "supported F n \<longleftrightarrow>
      match_ext F ''.jpg'' n \<or> match_ext F ''.jpeg'' n \<or> match_ext F ''.png'' n" for n
    by (simp add: supported_def)
  have u: "p \<in> set files \<longleftrightarrow> p \<in> set a \<or> p \<in> set b \<or> p \<in> set c" for p
    by (auto simp: f)
  have "p \<in> set files \<longleftrightarrow>
            p \<noteq> [] \<and> lookup (fs w) p \<noteq> None
            \<and> (\<forall>j < length p. scandir_fault os (take j p) = None)
            \<and> supported F (name_of p)" for p
    unfolding u s
      rglob_member [OF assms(1) a] rglob_member [OF assms(1) b]
      rglob_member [OF assms(1) c]
    by blast
  then show "\<forall>p. p \<in> set files \<longleftrightarrow>
            p \<noteq> [] \<and> lookup (fs w) p \<noteq> None
            \<and> (\<forall>j < length p. scandir_fault os (take j p) = None)
            \<and> supported F (name_of p)"
    by blast
  show "process_directory os F P w =
           (case pool_fault os of
              Some e \<Rightarrow> (Inl e, w)
            | None \<Rightarrow>
                (case executor_map os P files w of
                   (results, w') \<Rightarrow> (Inr (tally results (0, 0, 0)), w')))"
    by (simp add: process_directory_def assms(2))
qed

theorem enumeration_characterised_witness:
  "distinct_names (fs example_world)
   \<and> image_files example_os PosixFlavour (fs example_world)
       = Inr [[''photo.jpg''], [''album.jpg''], [''sub'', ''icon.png'']]
   \<and> lookup (fs example_world) [''sub'', ''icon.png''] \<noteq> None
   \<and> supported PosixFlavour (name_of [''sub'', ''icon.png''])
   \<and> [''notes.txt''] \<notin> set [[''photo.jpg''], [''album.jpg''], [''sub'', ''icon.png'']]
   \<and> \<not> supported PosixFlavour (name_of [''notes.txt''])
   \<and> \<not> supported PosixFlavour ''A.JPG'' \<and> supported WindowsFlavour ''A.JPG''"
proof -
  have d: "distinct_names (fs example_world)"
    by (simp add: example_world_def example_tree_def)
  have f: "image_files example_os PosixFlavour (fs example_world)
       = Inr [[''photo.jpg''], [''album.jpg''], [''sub'', ''icon.png'']]"
    using example_image_files by (simp add: example_world_def)
  have n: "[''notes.txt''] \<notin> set [[''photo.jpg''], [''album.jpg''], [''sub'', ''icon.png'']]"
    by simp
  have l: "lookup (fs example_world) [''notes.txt''] \<noteq> None"
    "\<forall>j < length [''notes.txt'']. scandir_fault example_os (take j [''notes.txt'']) = None"
    by (simp_all add: example_world_def example_tree_def example_os_def)
  have i: "[''sub'', ''icon.png''] \<in> set [[''photo.jpg''], [''album.jpg''], [''sub'', ''icon.png'']]"
    by simp
  have c: "\<not> supported PosixFlavour ''A.JPG''" "supported WindowsFlavour ''A.JPG''"
    by (simp_all add: supported_def match_ext_def endswith_def ascii_lower_def)
  note th = enumeration_characterised [OF d f, of example_pil, THEN conjunct1]
  from th [THEN spec, of "[''sub'', ''icon.png'']"] i
  have a: "lookup (fs example_world) [''sub'', ''icon.png''] \<noteq> None"
    "supported PosixFlavour (name_of [''sub'', ''icon.png''])"
    by simp_all
  from th [THEN spec, of "[''notes.txt'']"] n l
  have b: "\<not> supported PosixFlavour (name_of [''notes.txt''])"
    by simp
  from a b c d f n show ?thesis
    by simp
qed

text \<open>
  The claim C8 as stated fails on a directory whose name ends with \<^verbatim>\<open>.jpg\<close>: it is
  enumerated although it is not a regular file.
\<close>

theorem enumeration_yields_directory:
  "image_files example_os PosixFlavour example_tree
     = Inr [[''photo.jpg''], [''album.jpg''], [''sub'', ''icon.png'']]
   \<and> lookup example_tree [''album.jpg''] = Some (Dir [])"
  using example_image_files by (simp add: example_tree_def)

lemma rglob_unlisted_start:
  assumes "scandir_fault os [] = Some e"
    and "e = PermissionError \<or> interpreter os = CPython_3_12 \<and> is_OSError e"
  shows "rglob os F tree ext = Inr []"
proof (cases "interpreter os")
  case CPython_3_11
  with assms show ?thesis
    by (cases tree) (auto simp: rglob_def)
next
  case CPython_3_12
  from assms(2) have "is_OSError e"
    by auto
  with assms(1) CPython_3_12 show ?thesis
    by (cases tree) (simp_all add: rglob_def)
qed

lemma image_files_unlisted_start:
  assumes "scandir_fault os [] = Some e"
    and "e = PermissionError \<or> interpreter os = CPython_3_12 \<and> is_OSError e"
  shows "image_files os F tree = Inr []"
  by (simp add: image_files_def rglob_unlisted_start [OF assms])

text \<open>
  C9, as the code has it. When the enumeration raises, the batch raises the same
  exception with the state untouched (no file was processed, no codec call made) and
  \<^verbatim>\<open>main\<close> ends with \<^verbatim>\<open>sys.exit(1)\<close> instead of the summary. A start directory that
  cannot be listed does not always make it raise. A \<^verbatim>\<open>PermissionError\<close> of \<^verbatim>\<open>scandir\<close>
  on the start directory is swallowed on both releases: the file list is empty and the
  run ends with the summary of three zeros. Another error of \<^verbatim>\<open>scandir\<close> there makes
  the enumeration raise on CPython 3.11; on CPython 3.12 every \<^verbatim>\<open>OSError\<close> is
  swallowed like the \<^verbatim>\<open>PermissionError\<close>.
\<close>

theorem enumeration_error_is_fatal:
  "(image_files os F (fs w) = Inl e \<longrightarrow>
      process_directory os F P w = (Inl e, w) \<and> main os F P w = (SysExit 1, w))
   \<and> (scandir_fault os [] = Some PermissionError \<and> pool_fault os = None \<longrightarrow>
        image_files os F (fs w) = Inr [] \<and> main os F P w = (Summary 0 0 0, w))
   \<and> (interpreter os = CPython_3_11 \<and> is_dir (fs w)
        \<and> scandir_fault os [] = Some e \<and> e \<noteq> PermissionError \<longrightarrow>
        image_files os F (fs w) = Inl e)
   \<and> (interpreter os = CPython_3_12 \<and> scandir_fault os [] = Some e \<and> is_OSError e
        \<and> pool_fault os = None \<longrightarrow>
        image_files os F (fs w) = Inr [] \<and> main os F P w = (Summary 0 0 0, w))"
proof (intro conjI impI)
  assume "image_files os F (fs w) = Inl e"
  then show "process_directory os F P w = (Inl e, w)"
    by (simp add: process_directory_def)
  then show "main os F P w = (SysExit 1, w)"
    by (simp add: main_def)
next
  assume a: "scandir_fault os [] = Some PermissionError \<and> pool_fault os = None"
  then show f: "image_files os F (fs w) = Inr []"
    by (intro image_files_unlisted_start [of os PermissionError]) simp_all
  show "main os F P w = (Summary 0 0 0, w)"
    using a by (simp add: main_def process_directory_def f)
next
  assume a: "interpreter os = CPython_3_11 \<and> is_dir (fs w)
        \<and> scandir_fault os [] = Some e \<and> e \<noteq> PermissionError"
  then obtain kids where "fs w = Dir kids"
    by (cases "fs w") auto
  with a show "image_files os F (fs w) = Inl e"
    by (simp add: image_files_def rglob_def)
next
  assume a: "interpreter os = CPython_3_12 \<and> scandir_fault os [] = Some e \<and> is_OSError e
        \<and> pool_fault os = None"
  then show f: "image_files os F (fs w) = Inr []"
    by (intro image_files_unlisted_start [of os e]) simp_all
  show "main os F P w = (Summary 0 0 0, w)"
    using a by (simp add: main_def process_directory_def f)
qed

theorem enumeration_error_is_fatal_witness:
  "interpreter broken_os = CPython_3_11 \<and> is_dir (fs example_world)
   \<and> scandir_fault broken_os [] = Some OSError
   \<and> image_files broken_os PosixFlavour (fs example_world) = Inl OSError
   \<and> main broken_os PosixFlavour example_pil example_world = (SysExit 1, example_world)
   \<and> scandir_fault unreadable_os [] = Some PermissionError \<and> pool_fault unreadable_os = None
   \<and> image_files unreadable_os PosixFlavour (fs example_world) = Inr []
   \<and> is_OSError OSError
   \<and> image_files (broken_os \<lparr>interpreter := CPython_3_12\<rparr>) PosixFlavour (fs example_world)
       = Inr []
   \<and> main (broken_os \<lparr>interpreter := CPython_3_12\<rparr>) PosixFlavour example_pil example_world
       = (Summary 0 0 0, example_world)"
proof -
  have d: "is_dir (fs example_world)"
    by (simp add: example_world_def example_tree_def)
  have s: "scandir_fault broken_os [] = Some OSError"
    and i: "interpreter broken_os = CPython_3_11"
    and bp: "pool_fault broken_os = None"
    by (simp_all add: broken_os_def example_os_def)
  have u: "scandir_fault unreadable_os [] = Some PermissionError"
    and p: "pool_fault unreadable_os = None"
    by (simp_all add: unreadable_os_def example_os_def)
  from enumeration_error_is_fatal [of broken_os PosixFlavour example_world OSError example_pil]
    d s i
  have broken: "image_files broken_os PosixFlavour (fs example_world) = Inl OSError
    \<and> main broken_os PosixFlavour example_pil example_world = (SysExit 1, example_world)"
    by simp
  from enumeration_error_is_fatal
    [of unreadable_os PosixFlavour example_world PermissionError example_pil] u p
  have unreadable: "image_files unreadable_os PosixFlavour (fs example_world) = Inr []"
    by simp
  from enumeration_error_is_fatal
    [of "broken_os \<lparr>interpreter := CPython_3_12\<rparr>" PosixFlavour example_world OSError
      example_pil] s bp
  have later: "image_files (broken_os \<lparr>interpreter := CPython_3_12\<rparr>) PosixFlavour
        (fs example_world) = Inr []
    \<and> main (broken_os \<lparr>interpreter := CPython_3_12\<rparr>) PosixFlavour example_pil example_world
        = (Summary 0 0 0, example_world)"
    by simp
  from d s i u p broken unreadable later show ?thesis
    by simp
qed

text \<open>
  The claim C9 as stated fails when the start directory cannot be listed for lack of
  permission: on either release the run ends normally with the summary.
\<close>

theorem unreadable_root_ends_with_summary:
  "scandir_fault unreadable_os [] = Some PermissionError
   \<and> main unreadable_os PosixFlavour example_pil example_world = (Summary 0 0 0, example_world)
   \<and> main (unreadable_os \<lparr>interpreter := CPython_3_12\<rparr>) PosixFlavour example_pil
        example_world = (Summary 0 0 0, example_world)"
proof -
  have s: "scandir_fault unreadable_os [] = Some PermissionError"
    and p: "pool_fault unreadable_os = None"
    by (simp_all add: unreadable_os_def example_os_def)
  have "rglob unreadable_os PosixFlavour (fs example_world) ext = Inr []" for ext
    by (simp add: rglob_def example_world_def example_tree_def s unreadable_os_def
        example_os_def)
  then have a: "image_files unreadable_os PosixFlavour (fs example_world) = Inr []"
    by (simp add: image_files_def)
  have "rglob (unreadable_os \<lparr>interpreter := CPython_3_12\<rparr>) PosixFlavour
      (fs example_world) ext = Inr []" for ext
    by (simp add: rglob_def example_world_def example_tree_def s)
  then have b: "image_files (unreadable_os \<lparr>interpreter := CPython_3_12\<rparr>) PosixFlavour
      (fs example_world) = Inr []"
    by (simp add: image_files_def)
  from a b show ?thesis
    by (simp add: s p main_def process_directory_def)
qed

end
